theory Spec2Isabelle
  imports Complex_Main
begin

section \<open>The bridge server (bridge\_server/server.js)\<close>

text \<open>
  The relay is the class \<open>BridgeServer\<close>: an HTTP endpoint \<open>POST /execute\<close> that calls
  \<open>executeCommand\<close>, and a WebSocket server whose connection, message and close handlers
  mutate two fields, \<open>extensionSocket\<close> and \<open>pendingRequests\<close>. Node runs every handler to
  completion on one thread, so the program is a transition system: each handler is a
  function from the state to the state, and the environment (the agents, the extension,
  the timer queue) chooses the order of the handlers.
\<close>

subsection \<open>JSON values\<close>

text \<open>
  A number as \<open>JSON.parse\<close> gives it is a double: a finite value (every finite double is a
  rational), negative zero, or, for a numeral beyond the range such as \<open>1e309\<close>, plus or
  minus infinity. \<open>JSON.parse\<close> never gives NaN.
\<close>

datatype number = Finite rat | NegZero | PosInf | NegInf

text \<open>
  \<open>express.json()\<close> and \<open>JSON.parse\<close> produce these values. An object is the list of its
  own properties.
\<close>

datatype json =
    JNull
  | JBool bool
  | JNum number
  | JStr string
  | JArr "json list"
  | JObj "(string \<times> json) list"

text \<open>Writing the property \<open>k\<close> of an object: an existing property keeps its place.\<close>

fun set_prop :: "string \<Rightarrow> json \<Rightarrow> (string \<times> json) list \<Rightarrow> (string \<times> json) list" where
  "set_prop k v [] = [(k, v)]"
| "set_prop k v ((k', v') # ps) =
     (if k' = k then (k, v) # ps else (k', v') # set_prop k v ps)"

function decimal :: "nat \<Rightarrow> string" where
  "decimal n =
     (if n < 10 then [''0123456789'' ! n]
      else decimal (n div 10) @ [''0123456789'' ! (n mod 10)])"
  by pat_completeness auto
termination
  by (relation "measure id") auto

text \<open>
  The own enumerable properties that an object spread \<open>...command\<close> copies: the fields of an
  object, the indices of an array, the indices of a string (one character each), and
  nothing for \<open>null\<close>, a number or a boolean. \<open>express.json()\<close> hands \<open>req.body\<close> over as an
  object or an array.
\<close>

fun own_props :: "json \<Rightarrow> (string \<times> json) list" where
  "own_props (JObj ps) = ps"
| "own_props (JArr xs) = zip (map decimal [0..<length xs]) xs"
| "own_props (JStr cs) = zip (map decimal [0..<length cs]) (map (\<lambda>c. JStr [c]) cs)"
| "own_props _ = []"

text \<open>
  The value of the own property \<open>k\<close>. \<open>JSON.parse\<close> gives an object each key once; should
  a list name a key twice, the later entry is the value, as in the parser.
\<close>

definition own_prop :: "json \<Rightarrow> string \<Rightarrow> json option" where
  "own_prop v k = map_of (rev (own_props v)) k"

text \<open>The object literal \<open>{ id, ...command }\<close> of \<open>executeCommand\<close>: first \<open>id\<close>, then the spread.\<close>

definition message_literal :: "string \<Rightarrow> json \<Rightarrow> json" where
  "message_literal rid command =
     JObj (fold (\<lambda>(k, v). set_prop k v) (own_props command) [(''id'', JStr rid)])"

text \<open>
  Reading a named field of a value; \<open>None\<close> is \<open>undefined\<close>. The code reads \<open>id\<close> only, which
  no array, string, number or boolean has.
\<close>

fun get_prop :: "json \<Rightarrow> string \<Rightarrow> json option" where
  "get_prop (JObj ps) k = map_of ps k"
| "get_prop _ k = None"

subsection \<open>JSON texts\<close>

text \<open>
  What \<open>JSON.stringify\<close> writes, as the syntax tree of the text. \<open>TNum q\<close> is the numeral
  that JavaScript writes for the double \<open>q\<close>. A text has no numeral for an infinity, and
  none for negative zero: \<open>JSON.stringify\<close> writes \<open>null\<close> for the first and \<open>0\<close> for the
  second. \<open>send(JSON.stringify(message))\<close> and \<open>res.json(result)\<close> both write such a text.
\<close>

datatype json_text =
    TNull
  | TBool bool
  | TNum rat
  | TStr string
  | TArr "json_text list"
  | TObj "(string \<times> json_text) list"

primrec JSON_stringify :: "json \<Rightarrow> json_text" where
  "JSON_stringify JNull = TNull"
| "JSON_stringify (JBool b) = TBool b"
| "JSON_stringify (JNum n) =
     (case n of Finite q \<Rightarrow> TNum q | NegZero \<Rightarrow> TNum 0 | PosInf \<Rightarrow> TNull | NegInf \<Rightarrow> TNull)"
| "JSON_stringify (JStr s) = TStr s"
| "JSON_stringify (JArr xs) = TArr (map JSON_stringify xs)"
| "JSON_stringify (JObj ps) = TObj (map (map_prod (\<lambda>k. k) JSON_stringify) ps)"

text \<open>What \<open>JSON.parse\<close> reads from such a text: the numeral of a double is read as that double.\<close>

primrec JSON_parse :: "json_text \<Rightarrow> json" where
  "JSON_parse TNull = JNull"
| "JSON_parse (TBool b) = JBool b"
| "JSON_parse (TNum q) = JNum (Finite q)"
| "JSON_parse (TStr s) = JStr s"
| "JSON_parse (TArr xs) = JArr (map JSON_parse xs)"
| "JSON_parse (TObj ps) = JObj (map (map_prod (\<lambda>k. k) JSON_parse) ps)"

text \<open>A value with no infinity and no negative zero in it: one that a text can hold.\<close>

fun plain :: "json \<Rightarrow> bool" where
  "plain (JNum n) = (case n of Finite q \<Rightarrow> True | _ \<Rightarrow> False)"
| "plain (JArr xs) = list_all plain xs"
| "plain (JObj ps) = list_all (\<lambda>p. plain (snd p)) ps"
| "plain _ = True"

text \<open>Reading a named field of a text.\<close>

fun text_prop :: "json_text \<Rightarrow> string \<Rightarrow> json_text option" where
  "text_prop (TObj ps) k = map_of ps k"
| "text_prop _ k = None"

subsection \<open>The Map \<open>pendingRequests\<close>\<close>

text \<open>
  A JavaScript \<open>Map\<close> keeps its entries in insertion order, and \<open>forEach\<close> visits them in
  that order. The keys are the strings returned by \<open>uuidv4()\<close>; a value is the \<open>resolve\<close>
  function of one promise, named by the number of that promise.
\<close>

type_synonym pending = "(string \<times> nat) list"

fun Map_set :: "string \<Rightarrow> nat \<Rightarrow> pending \<Rightarrow> pending" where
  "Map_set k v [] = [(k, v)]"
| "Map_set k v ((k', v') # m) =
     (if k' = k then (k, v) # m else (k', v') # Map_set k v m)"

definition Map_get :: "pending \<Rightarrow> string \<Rightarrow> nat option" where
  "Map_get m k = map_of m k"

definition Map_has :: "pending \<Rightarrow> string \<Rightarrow> bool" where
  "Map_has m k = (map_of m k \<noteq> None)"

definition Map_delete :: "string \<Rightarrow> pending \<Rightarrow> pending" where
  "Map_delete k m = filter (\<lambda>e. fst e \<noteq> k) m"

subsection \<open>The state\<close>

text \<open>
  \<open>extensionSocket\<close> and \<open>pendingRequests\<close> are the fields of the class. The other fields
  record what the handlers do to their environment:
  \<^item> \<open>timers\<close>: the callbacks given to \<open>setTimeout\<close> that have not run yet, each with the
    time at which it becomes due, the \<open>id\<close> and the \<open>resolve\<close> it closes over;
  \<^item> \<open>clock\<close>: the time in milliseconds;
  \<^item> \<open>uuid_calls\<close>: how many times \<open>uuidv4()\<close> has been called;
  \<^item> \<open>promises\<close>: how many promises \<open>executeCommand\<close> has created;
  \<^item> \<open>resolved\<close>: every call of a \<open>resolve\<close> function, in order, with its argument;
  \<^item> \<open>sent\<close>: every text handed to \<open>send\<close> without an exception, with its socket;
  \<^item> \<open>console\<close>: the lines written by \<open>console.log\<close> and \<open>console.error\<close>.
\<close>

record BridgeServer =
  extensionSocket :: "nat option"
  pendingRequests :: pending
  timers :: "(nat \<times> string \<times> nat) list"
  clock :: nat
  uuid_calls :: nat
  promises :: nat
  resolved :: "(nat \<times> json) list"
  sent :: "(nat \<times> json_text) list"
  console :: "string list"

definition constructor :: BridgeServer where
  "constructor =
     \<lparr> extensionSocket = None, pendingRequests = [], timers = [], clock = 0,
       uuid_calls = 0, promises = 0, resolved = [], sent = [], console = [] \<rparr>"

definition resolve :: "nat \<Rightarrow> json \<Rightarrow> BridgeServer \<Rightarrow> BridgeServer" where
  "resolve w v s = s\<lparr>resolved := resolved s @ [(w, v)]\<rparr>"

definition console_log :: "string \<Rightarrow> BridgeServer \<Rightarrow> BridgeServer" where
  "console_log l s = s\<lparr>console := console s @ [l]\<rparr>"

text \<open>The results that the relay itself produces.\<close>

definition failure :: "string \<Rightarrow> json" where
  "failure e = JObj [(''success'', JBool False), (''error'', JStr e)]"

definition not_connected :: json where
  "not_connected = failure ''Extension not connected''"

definition request_timeout :: json where
  "request_timeout = failure ''Request timeout''"

definition send_failed :: json where
  "send_failed = failure ''Failed to send to extension''"

definition disconnected :: json where
  "disconnected = failure ''Extension disconnected''"

subsection \<open>The handlers\<close>

text \<open>\<open>wss.on('connection', ...)\<close>: the new socket becomes \<open>extensionSocket\<close>.\<close>

definition on_connection :: "nat \<Rightarrow> BridgeServer \<Rightarrow> BridgeServer" where
  "on_connection ws s =
     (console_log ''Extension connected via WebSocket'' s)\<lparr>extensionSocket := Some ws\<rparr>"

text \<open>
  \<open>ws.on('close', ...)\<close>: the handler of any socket clears \<open>extensionSocket\<close>, calls every
  stored \<open>resolve\<close> in the order of the Map, and clears the Map.
\<close>

definition on_close :: "BridgeServer \<Rightarrow> BridgeServer" where
  "on_close s =
     (let s1 = console_log ''Extension disconnected'' s;
          s2 = s1\<lparr>extensionSocket := None\<rparr>;
          s3 = fold (\<lambda>(rid, w). resolve w disconnected) (pendingRequests s2) s2
      in s3\<lparr>pendingRequests := []\<rparr>)"

text \<open>\<open>ws.on('error', ...)\<close> only writes to the console.\<close>

definition on_error :: "BridgeServer \<Rightarrow> BridgeServer" where
  "on_error s = console_log ''WebSocket error:'' s"

text \<open>
  \<open>handleExtensionMessage\<close>. The destructuring \<open>const { id } = message\<close> throws a TypeError
  when the message is \<open>null\<close>, and gives \<open>undefined\<close> for a value that has no property \<open>id\<close>.
  A key of the Map is a string, and \<open>has\<close> compares with SameValueZero, so only a string
  \<open>id\<close> can be found; \<open>has\<close> followed by \<open>get\<close> is the one lookup \<open>Map_get\<close>.
\<close>

datatype js_error = TypeError

definition destructure_id :: "json \<Rightarrow> js_error + json option" where
  "destructure_id message = (if message = JNull then Inl TypeError else Inr (get_prop message ''id''))"

definition handleExtensionMessage :: "json \<Rightarrow> BridgeServer \<Rightarrow> js_error + BridgeServer" where
  "handleExtensionMessage message s =
     (case destructure_id message of
        Inl e \<Rightarrow> Inl e
      | Inr (Some (JStr rid)) \<Rightarrow>
          (case Map_get (pendingRequests s) rid of
             Some w \<Rightarrow> Inr (resolve w message (s\<lparr>pendingRequests := Map_delete rid (pendingRequests s)\<rparr>))
           | None \<Rightarrow> Inr s)
      | Inr _ \<Rightarrow> Inr s)"

text \<open>
  \<open>ws.on('message', ...)\<close>: the argument is the result of \<open>JSON.parse\<close>, \<open>None\<close> when it
  throws. Both exceptions are caught and logged.
\<close>

definition on_message :: "json option \<Rightarrow> BridgeServer \<Rightarrow> BridgeServer" where
  "on_message parsed s =
     (case parsed of
        None \<Rightarrow> console_log ''Error parsing WebSocket message:'' s
      | Some message \<Rightarrow>
          (case handleExtensionMessage message s of
             Inl e \<Rightarrow> console_log ''Error parsing WebSocket message:'' s
           | Inr s' \<Rightarrow> s'))"

text \<open>The callback that \<open>executeCommand\<close> gives to \<open>setTimeout\<close>.\<close>

definition timeout_callback :: "string \<Rightarrow> nat \<Rightarrow> BridgeServer \<Rightarrow> BridgeServer" where
  "timeout_callback rid w s =
     (if Map_has (pendingRequests s) rid
      then resolve w request_timeout (s\<lparr>pendingRequests := Map_delete rid (pendingRequests s)\<rparr>)
      else s)"

text \<open>
  \<open>executeCommand\<close>. \<open>uuidv4\<close> is the function of the package \<open>uuid\<close>, a parameter here: its
  \<open>n\<close>-th call returns \<open>uuidv4 n\<close>. (The block at the end of server.js declares another
  \<open>uuidv4\<close> inside an \<open>if\<close>; it is local to that block and nothing calls it.) Whether
  \<open>send\<close> throws is decided by the socket, so it is an argument. The promise created by
  the call is number \<open>promises s\<close>; the table stores its \<open>resolve\<close> under the new \<open>id\<close>.
\<close>

definition executeCommand :: "(nat \<Rightarrow> string) \<Rightarrow> json \<Rightarrow> bool \<Rightarrow> BridgeServer \<Rightarrow> BridgeServer" where
  "executeCommand uuidv4 command send_throws s =
     (let w = promises s;
          s0 = s\<lparr>promises := w + 1\<rparr>
      in case extensionSocket s0 of
           None \<Rightarrow> resolve w not_connected s0
         | Some ws \<Rightarrow>
             (let rid = uuidv4 (uuid_calls s0);
                  s1 = s0\<lparr>uuid_calls := uuid_calls s0 + 1\<rparr>;
                  message = message_literal rid command;
                  s2 = s1\<lparr>pendingRequests := Map_set rid w (pendingRequests s1)\<rparr>;
                  s3 = s2\<lparr>timers := timers s2 @ [(clock s2 + 30000, rid, w)]\<rparr>
              in if send_throws
                 then resolve w send_failed (s3\<lparr>pendingRequests := Map_delete rid (pendingRequests s3)\<rparr>)
                 else s3\<lparr>sent := sent s3 @ [(ws, JSON_stringify message)]\<rparr>))"

text \<open>
  What the caller of \<open>POST /execute\<close> receives: \<open>await\<close> yields the argument of the first
  call of the promise's \<open>resolve\<close>, and \<open>res.json(result)\<close> sends the text that
  \<open>JSON.stringify\<close> writes for it, with status 200.
\<close>

definition settled :: "BridgeServer \<Rightarrow> nat \<Rightarrow> json option" where
  "settled s w = map_of (resolved s) w"


text \<open>
  What \<open>GET /health\<close> and \<open>GET /status\<close> report of the state: \<open>extensionConnected\<close> and
  \<open>pendingRequests\<close> (the size of the Map).
\<close>

definition extensionConnected :: "BridgeServer \<Rightarrow> bool" where
  "extensionConnected s = (extensionSocket s \<noteq> None)"

definition status_pendingRequests :: "BridgeServer \<Rightarrow> nat" where
  "status_pendingRequests s = length (pendingRequests s)"

text \<open>The number of results delivered to a promise.\<close>

definition deliveries :: "BridgeServer \<Rightarrow> nat \<Rightarrow> nat" where
  "deliveries s w = length (filter (\<lambda>r. fst r = w) (resolved s))"

subsection \<open>The event loop\<close>

text \<open>
  One event is one handler run; \<open>Close\<close>, \<open>Message\<close> and \<open>SocketError\<close> name the socket that
  emits the event. \<open>Tick d\<close> lets \<open>d\<close> milliseconds pass. \<open>Timeout i\<close> runs the
  \<open>i\<close>-th waiting timer callback, which the timer queue does only once its delay has
  passed; the callback then leaves the queue.
\<close>

datatype event =
    Connection nat
  | Close nat
  | Message nat "json option"
  | SocketError nat
  | Execute json bool
  | Tick nat
  | Timeout nat

definition dequeue :: "nat \<Rightarrow> 'a list \<Rightarrow> 'a list" where
  "dequeue i xs = take i xs @ drop (Suc i) xs"

definition run_timer :: "nat \<Rightarrow> BridgeServer \<Rightarrow> BridgeServer" where
  "run_timer i s =
     (if i < length (timers s) \<and> fst (timers s ! i) \<le> clock s
      then (case timers s ! i of
              (due, rid, w) \<Rightarrow>
                timeout_callback rid w (s\<lparr>timers := dequeue i (timers s)\<rparr>))
      else s)"

fun step :: "(nat \<Rightarrow> string) \<Rightarrow> event \<Rightarrow> BridgeServer \<Rightarrow> BridgeServer" where
  "step uuidv4 (Connection ws) s = on_connection ws s"
| "step uuidv4 (Close ws) s = on_close s"
| "step uuidv4 (Message ws parsed) s = on_message parsed s"
| "step uuidv4 (SocketError ws) s = on_error s"
| "step uuidv4 (Execute command send_throws) s = executeCommand uuidv4 command send_throws s"
| "step uuidv4 (Tick d) s = s\<lparr>clock := clock s + d\<rparr>"
| "step uuidv4 (Timeout i) s = run_timer i s"

fun run :: "(nat \<Rightarrow> string) \<Rightarrow> event list \<Rightarrow> BridgeServer \<Rightarrow> BridgeServer" where
  "run uuidv4 [] s = s"
| "run uuidv4 (e # es) s = run uuidv4 es (step uuidv4 e s)"

subsection \<open>Values for examples\<close>

text \<open>
  The examples below need some \<open>uuidv4\<close> that never repeats a value. This one returns
  \<open>u\<close>, \<open>uu\<close>, \<open>uuu\<close>, ...
\<close>

definition sample_uuid :: "nat \<Rightarrow> string" where
  "sample_uuid n = replicate (Suc n) CHR ''u''"

text \<open>Two requests of the documented form.\<close>

definition read_x :: json where
  "read_x = JObj [(''action'', JStr ''read''), (''selector'', JStr ''#x'')]"

definition click_y :: json where
  "click_y = JObj [(''action'', JStr ''click''), (''selector'', JStr ''#y'')]"

text \<open>A request that asks for a timeout of five seconds, and one that brings its own \<open>id\<close>.\<close>

definition read_x_5s :: json where
  "read_x_5s =
     JObj [(''action'', JStr ''read''), (''selector'', JStr ''#x''), (''timeout'', JNum (Finite 5000))]"

definition read_x_mine :: json where
  "read_x_mine =
     JObj [(''id'', JStr ''mine''), (''action'', JStr ''read''), (''selector'', JStr ''#x'')]"

text \<open>A request whose action is not one of \<open>read\<close>, \<open>write\<close>, \<open>click\<close>, and that has no selector.\<close>

definition hover :: json where
  "hover = JObj [(''action'', JStr ''hover'')]"

text \<open>The reply of the specification's end-to-end scenario, to the request with identifier \<open>u\<close>.\<close>

definition hello_reply :: json where
  "hello_reply =
     JObj [(''id'', JStr ''u''), (''success'', JBool True), (''data'', JStr ''hello''),
           (''elementType'', JStr ''input'')]"

text \<open>
  The same reply with \<open>data\<close> written \<open>1e309\<close>, and a request with a field \<open>n\<close> written so:
  the parser reads the numeral as infinity.
\<close>

definition overflow_reply :: json where
  "overflow_reply =
     JObj [(''id'', JStr ''u''), (''success'', JBool True), (''data'', JNum PosInf)]"

definition hover_big :: json where
  "hover_big = JObj [(''action'', JStr ''hover''), (''n'', JNum PosInf)]"

text \<open>A generator that returns the same value at every call.\<close>

definition constant_uuid :: "nat \<Rightarrow> string" where
  "constant_uuid n = ''u''"

subsection \<open>What the specification says where the code differs\<close>

text \<open>
  The specification gives a request a field \<open>timeout\<close>, 30 seconds when it is missing,
  and registers the deadline \<open>now + timeout\<close>. This is that deadline, the field read in
  milliseconds as the clock is.
\<close>

definition spec_timeout :: "json \<Rightarrow> nat" where
  "spec_timeout command =
     (case get_prop command ''timeout'' of
        Some (JNum (Finite q)) \<Rightarrow> nat \<lfloor>q\<rfloor>
      | _ \<Rightarrow> 30000)"

definition spec_deadline :: "BridgeServer \<Rightarrow> json \<Rightarrow> nat" where
  "spec_deadline s command = clock s + spec_timeout command"


subsection \<open>Time passing\<close>

text \<open>
  The events after which no timer waits any more: the clock passes every due time, and
  the timer queue runs each waiting callback.
\<close>

definition expire :: "BridgeServer \<Rightarrow> event list" where
  "expire s = Tick (fold max (map fst (timers s)) 0) # replicate (length (timers s)) (Timeout 0)"

subsection \<open>The invariant of the reachable states\<close>

definition count_for :: "nat \<Rightarrow> (nat \<times> json) list \<Rightarrow> nat" where
  "count_for w rs = length (filter (\<lambda>r. fst r = w) rs)"

text \<open>
  Every entry of the table belongs to a promise that has no result yet, under an
  identifier that \<open>uuidv4\<close> returned, with its timer still waiting.
\<close>

definition table_ok :: "(nat \<Rightarrow> string) \<Rightarrow> BridgeServer \<Rightarrow> bool" where
  "table_ok g s \<longleftrightarrow>
     distinct (map fst (pendingRequests s)) \<and>
     distinct (map snd (pendingRequests s)) \<and>
     (\<forall>rid w. (rid, w) \<in> set (pendingRequests s) \<longrightarrow>
        w < promises s \<and> count_for w (resolved s) = 0 \<and> (\<exists>k < uuid_calls s. rid = g k) \<and>
        (\<exists>due. (due, rid, w) \<in> set (timers s)))"

text \<open>A promise that is not in the table has exactly one result.\<close>

definition waiters_ok :: "BridgeServer \<Rightarrow> bool" where
  "waiters_ok s \<longleftrightarrow>
     (\<forall>w. w < promises s \<longrightarrow> w \<notin> snd ` set (pendingRequests s) \<longrightarrow> count_for w (resolved s) = 1) \<and>
     (\<forall>w. promises s \<le> w \<longrightarrow> count_for w (resolved s) = 0)"

text \<open>A waiting timer closes over the \<open>resolve\<close> that the table holds under its \<open>id\<close>.\<close>

definition timers_ok :: "(nat \<Rightarrow> string) \<Rightarrow> BridgeServer \<Rightarrow> bool" where
  "timers_ok g s \<longleftrightarrow>
     (\<forall>due rid w. (due, rid, w) \<in> set (timers s) \<longrightarrow>
        w < promises s \<and> (\<exists>k < uuid_calls s. rid = g k) \<and>
        (\<forall>w'. (rid, w') \<in> set (pendingRequests s) \<longrightarrow> w' = w))"

definition invariant :: "(nat \<Rightarrow> string) \<Rightarrow> BridgeServer \<Rightarrow> bool" where
  "invariant g s \<longleftrightarrow> table_ok g s \<and> waiters_ok s \<and> timers_ok g s"

section \<open>Lemmas\<close>

subsection \<open>The Map\<close>

lemma map_of_Map_set: "map_of (Map_set k v m) k' = (if k' = k then Some v else map_of m k')"
  by (induction m) auto

lemma Map_set_fresh: "k \<notin> fst ` set m \<Longrightarrow> Map_set k v m = m @ [(k, v)]"
  by (induction m) auto

lemma set_Map_delete: "set (Map_delete k m) = {e \<in> set m. fst e \<noteq> k}"
  by (auto simp: Map_delete_def)

lemma map_of_Map_delete: "map_of (Map_delete k m) k' = (if k' = k then None else map_of m k')"
  by (induction m) (auto simp: Map_delete_def)

lemma Map_delete_absent: "k \<notin> fst ` set m \<Longrightarrow> Map_delete k m = m"
  by (induction m) (auto simp: Map_delete_def)

lemma Map_delete_append_fresh: "k \<notin> fst ` set m \<Longrightarrow> Map_delete k (m @ [(k, v)]) = m"
  by (induction m) (auto simp: Map_delete_def)

lemma distinct_fst_Map_delete: "distinct (map fst m) \<Longrightarrow> distinct (map fst (Map_delete k m))"
  by (simp add: Map_delete_def distinct_map_filter)

lemma distinct_snd_Map_delete: "distinct (map snd m) \<Longrightarrow> distinct (map snd (Map_delete k m))"
  by (simp add: Map_delete_def distinct_map_filter)

subsection \<open>Counting results\<close>

lemma deliveries_count: "deliveries s w = count_for w (resolved s)"
  by (simp add: deliveries_def count_for_def)

lemma count_for_snoc: "count_for w (rs @ [(w', v)]) = count_for w rs + (if w' = w then 1 else 0)"
  by (simp add: count_for_def)

lemma count_for_append: "count_for w (rs @ rs') = count_for w rs + count_for w rs'"
  by (simp add: count_for_def)

lemma count_for_drain_absent:
  "w \<notin> snd ` set m \<Longrightarrow> count_for w (map (\<lambda>(rid, w'). (w', v)) m) = 0"
  by (induction m) (auto simp: count_for_def comp_def split_beta)

lemma count_for_drain_present:
  "distinct (map snd m) \<Longrightarrow> w \<in> snd ` set m \<Longrightarrow> count_for w (map (\<lambda>(rid, w'). (w', v)) m) = 1"
proof (induction m)
  case Nil
  then show ?case by simp
next
  case (Cons e m)
  obtain rid w' where e: "e = (rid, w')" by (cases e)
  show ?case
  proof (cases "w' = w")
    case True
    with Cons.prems e have "w \<notin> snd ` set m" by auto
    then have "count_for w (map (\<lambda>(rid, w'). (w', v)) m) = 0" by (rule count_for_drain_absent)
    with True e show ?thesis by (simp add: count_for_def)
  next
    case False
    with Cons.prems e have "distinct (map snd m)" "w \<in> snd ` set m" by auto
    then have "count_for w (map (\<lambda>(rid, w'). (w', v)) m) = 1" by (rule Cons.IH)
    with False e show ?thesis by (simp add: count_for_def)
  qed
qed

subsection \<open>The invariant holds in every reachable state\<close>

lemma invariant_constructor: "invariant g constructor"
  by (simp add: invariant_def table_ok_def waiters_ok_def timers_ok_def constructor_def count_for_def)

lemma invariant_on_connection: "invariant g s \<Longrightarrow> invariant g (on_connection ws s)"
  by (simp add: invariant_def table_ok_def waiters_ok_def timers_ok_def on_connection_def console_log_def)

lemma invariant_console_log: "invariant g s \<Longrightarrow> invariant g (console_log l s)"
  by (simp add: invariant_def table_ok_def waiters_ok_def timers_ok_def console_log_def)

lemma invariant_tick: "invariant g s \<Longrightarrow> invariant g (s\<lparr>clock := clock s + d\<rparr>)"
  by (simp add: invariant_def table_ok_def waiters_ok_def timers_ok_def)

lemma fold_resolve_resolved:
  "resolved (fold (\<lambda>(rid, w). resolve w v) m s) = resolved s @ map (\<lambda>(rid, w). (w, v)) m"
  by (induction m arbitrary: s) (auto simp: resolve_def)

lemma fold_resolve_other:
  "pendingRequests (fold (\<lambda>(rid, w). resolve w v) m s) = pendingRequests s"
  "extensionSocket (fold (\<lambda>(rid, w). resolve w v) m s) = extensionSocket s"
  "timers (fold (\<lambda>(rid, w). resolve w v) m s) = timers s"
  "clock (fold (\<lambda>(rid, w). resolve w v) m s) = clock s"
  "uuid_calls (fold (\<lambda>(rid, w). resolve w v) m s) = uuid_calls s"
  "promises (fold (\<lambda>(rid, w). resolve w v) m s) = promises s"
  "sent (fold (\<lambda>(rid, w). resolve w v) m s) = sent s"
  "console (fold (\<lambda>(rid, w). resolve w v) m s) = console s"
  by (induction m arbitrary: s; auto simp: resolve_def)+

lemma on_close_fields:
  "resolved (on_close s) = resolved s @ map (\<lambda>(rid, w). (w, disconnected)) (pendingRequests s)"
  "pendingRequests (on_close s) = []"
  "extensionSocket (on_close s) = None"
  "timers (on_close s) = timers s"
  "clock (on_close s) = clock s"
  "uuid_calls (on_close s) = uuid_calls s"
  "promises (on_close s) = promises s"
  "sent (on_close s) = sent s"
  by (simp_all add: on_close_def Let_def fold_resolve_resolved fold_resolve_other console_log_def)

lemma invariant_on_close:
  assumes "invariant g s"
  shows "invariant g (on_close s)"
proof -
  from assms have t: "table_ok g s" and w: "waiters_ok s" and ti: "timers_ok g s"
    by (simp_all add: invariant_def)
  have "table_ok g (on_close s)"
    by (simp add: table_ok_def on_close_fields)
  moreover have "waiters_ok (on_close s)"
    unfolding waiters_ok_def on_close_fields
  proof (intro conjI allI impI)
    fix v assume v: "v < promises s"
    show "count_for v (resolved s @ map (\<lambda>(rid, w). (w, disconnected)) (pendingRequests s)) = 1"
    proof (cases "v \<in> snd ` set (pendingRequests s)")
      case True
      with t have "count_for v (resolved s) = 0" by (auto simp: table_ok_def)
      moreover from t True have "count_for v (map (\<lambda>(rid, w). (w, disconnected)) (pendingRequests s)) = 1"
        by (intro count_for_drain_present) (auto simp: table_ok_def)
      ultimately show ?thesis by (simp add: count_for_append)
    next
      case False
      with w v have "count_for v (resolved s) = 1" by (simp add: waiters_ok_def)
      moreover from False have "count_for v (map (\<lambda>(rid, w). (w, disconnected)) (pendingRequests s)) = 0"
        by (rule count_for_drain_absent)
      ultimately show ?thesis by (simp add: count_for_append)
    qed
  next
    fix v assume v: "promises s \<le> v"
    with w have "count_for v (resolved s) = 0" by (simp add: waiters_ok_def)
    moreover from t v have "v \<notin> snd ` set (pendingRequests s)" by (fastforce simp: table_ok_def)
    then have "count_for v (map (\<lambda>(rid, w). (w, disconnected)) (pendingRequests s)) = 0"
      by (rule count_for_drain_absent)
    ultimately show "count_for v (resolved s @ map (\<lambda>(rid, w). (w, disconnected)) (pendingRequests s)) = 0"
      by (simp add: count_for_append)
  qed
  moreover from ti have "timers_ok g (on_close s)"
    by (simp add: timers_ok_def on_close_fields)
  ultimately show ?thesis by (simp add: invariant_def)
qed

lemma resolve_fields:
  "resolved (resolve w v s) = resolved s @ [(w, v)]"
  "pendingRequests (resolve w v s) = pendingRequests s"
  "extensionSocket (resolve w v s) = extensionSocket s"
  "timers (resolve w v s) = timers s"
  "clock (resolve w v s) = clock s"
  "uuid_calls (resolve w v s) = uuid_calls s"
  "promises (resolve w v s) = promises s"
  "sent (resolve w v s) = sent s"
  "console (resolve w v s) = console s"
  by (simp_all add: resolve_def)

text \<open>Removing the entry of a key and calling its resolve function, as a reply and a due timer do.\<close>

lemma invariant_settle:
  assumes inv: "invariant g s" and mem: "(rid, w) \<in> set (pendingRequests s)"
    and rest: "set (timers s') \<subseteq> set (timers s)"
      "\<And>due rid' w'. (due, rid', w') \<in> set (timers s) \<Longrightarrow> rid' \<noteq> rid \<Longrightarrow> (due, rid', w') \<in> set (timers s')"
      "promises s' = promises s" "uuid_calls s' = uuid_calls s"
      "pendingRequests s' = Map_delete rid (pendingRequests s)"
      "resolved s' = resolved s @ [(w, v)]"
  shows "invariant g s'"
proof -
  from inv have t: "table_ok g s" and wo: "waiters_ok s" and ti: "timers_ok g s"
    by (simp_all add: invariant_def)
  from t have d1: "distinct (map fst (pendingRequests s))" and d2: "distinct (map snd (pendingRequests s))"
    by (simp_all add: table_ok_def)
  have only: "w' = w" if "(rid, w') \<in> set (pendingRequests s)" for w'
    using d1 mem that by (meson eq_key_imp_eq_value)
  have other: "rid' \<noteq> rid" if "(rid', w) \<in> set (pendingRequests s)" "(rid', w) \<noteq> (rid, w)" for rid'
    using that by auto
  have gone: "w \<notin> snd ` set (Map_delete rid (pendingRequests s))"
  proof
    assume "w \<in> snd ` set (Map_delete rid (pendingRequests s))"
    then obtain rid' where r: "(rid', w) \<in> set (pendingRequests s)" "rid' \<noteq> rid"
      by (auto simp: set_Map_delete)
    from d2 mem r(1) have "rid' = rid"
      by (metis (no_types, lifting) distinct_map inj_on_def snd_conv prod.inject)
    with r(2) show False by simp
  qed
  have "table_ok g s'"
    unfolding table_ok_def rest
  proof (intro conjI allI impI)
    show "distinct (map fst (Map_delete rid (pendingRequests s)))"
      using d1 by (rule distinct_fst_Map_delete)
    show "distinct (map snd (Map_delete rid (pendingRequests s)))"
      using d2 by (rule distinct_snd_Map_delete)
  next
    fix rid' w' assume a: "(rid', w') \<in> set (Map_delete rid (pendingRequests s))"
    then have m: "(rid', w') \<in> set (pendingRequests s)" and ne: "rid' \<noteq> rid"
      by (auto simp: set_Map_delete)
    from a gone have "w' \<noteq> w" by force
    moreover from t m have "w' < promises s" "count_for w' (resolved s) = 0" "\<exists>k<uuid_calls s. rid' = g k"
      "\<exists>due. (due, rid', w') \<in> set (timers s)"
      by (auto simp: table_ok_def)
    ultimately show "w' < promises s" "count_for w' (resolved s @ [(w, v)]) = 0" "\<exists>k<uuid_calls s. rid' = g k"
      "\<exists>due. (due, rid', w') \<in> set (timers s')"
      using ne rest(2) by (auto simp: count_for_snoc)
  qed
  moreover have "waiters_ok s'"
    unfolding waiters_ok_def rest
  proof (intro conjI allI impI)
    fix u assume u: "u < promises s" "u \<notin> snd ` set (Map_delete rid (pendingRequests s))"
    show "count_for u (resolved s @ [(w, v)]) = 1"
    proof (cases "u = w")
      case True
      from t mem have "count_for w (resolved s) = 0" by (auto simp: table_ok_def)
      with True show ?thesis by (simp add: count_for_snoc)
    next
      case False
      have "u \<notin> snd ` set (pendingRequests s)"
      proof
        assume "u \<in> snd ` set (pendingRequests s)"
        then obtain r where r: "(r, u) \<in> set (pendingRequests s)" by auto
        with False only have "r \<noteq> rid" by auto
        with r have "(r, u) \<in> set (Map_delete rid (pendingRequests s))" by (simp add: set_Map_delete)
        with u(2) show False by force
      qed
      with wo u(1) have "count_for u (resolved s) = 1" by (simp add: waiters_ok_def)
      with False show ?thesis by (simp add: count_for_snoc)
    qed
  next
    fix u assume u: "promises s \<le> u"
    from t mem have "w < promises s" by (auto simp: table_ok_def)
    with u have "u \<noteq> w" by simp
    moreover from wo u have "count_for u (resolved s) = 0" by (simp add: waiters_ok_def)
    ultimately show "count_for u (resolved s @ [(w, v)]) = 0" by (simp add: count_for_snoc)
  qed
  moreover have "timers_ok g s'"
    unfolding timers_ok_def rest
  proof (intro allI impI)
    fix due rid' w' assume "(due, rid', w') \<in> set (timers s')"
    with rest(1) have "(due, rid', w') \<in> set (timers s)" by auto
    with ti show "w' < promises s \<and> (\<exists>k<uuid_calls s. rid' = g k) \<and>
        (\<forall>w'a. (rid', w'a) \<in> set (Map_delete rid (pendingRequests s)) \<longrightarrow> w'a = w')"
      by (auto simp: timers_ok_def set_Map_delete)
  qed
  ultimately show ?thesis by (simp add: invariant_def)
qed

lemma Map_get_Some: "Map_get m k = Some w \<Longrightarrow> (k, w) \<in> set m"
  by (simp add: Map_get_def map_of_SomeD)

lemma invariant_handleExtensionMessage:
  assumes "invariant g s" "handleExtensionMessage m s = Inr s'"
  shows "invariant g s'"
proof (cases "destructure_id m")
  case (Inl e)
  with assms(2) show ?thesis by (simp add: handleExtensionMessage_def)
next
  case (Inr i)
  show ?thesis
  proof (cases "\<exists>rid w. i = Some (JStr rid) \<and> Map_get (pendingRequests s) rid = Some w")
    case True
    then obtain rid w where i: "i = Some (JStr rid)" and g: "Map_get (pendingRequests s) rid = Some w"
      by auto
    with Inr assms(2) have s': "s' = resolve w m (s\<lparr>pendingRequests := Map_delete rid (pendingRequests s)\<rparr>)"
      by (simp add: handleExtensionMessage_def)
    show ?thesis
      by (rule invariant_settle [OF assms(1) Map_get_Some [OF g]]) (simp_all add: s' resolve_fields)
  next
    case False
    with Inr assms(2) have "s' = s"
      by (auto simp: handleExtensionMessage_def split: option.splits json.splits)
    with assms(1) show ?thesis by simp
  qed
qed

lemma invariant_on_message: "invariant g s \<Longrightarrow> invariant g (on_message parsed s)"
  by (auto simp: on_message_def invariant_console_log invariant_handleExtensionMessage
      split: option.splits sum.splits)

lemma issued_mono: "\<exists>k<n. rid = g k \<Longrightarrow> n \<le> n' \<Longrightarrow> \<exists>k<n'. rid = g k"
  for n n' :: nat
  using less_le_trans by blast

lemma invariant_keys_issued:
  "invariant g s \<Longrightarrow> rid \<in> fst ` set (pendingRequests s) \<Longrightarrow> \<exists>k<uuid_calls s. rid = g k"
  by (fastforce simp: invariant_def table_ok_def)

lemma invariant_fresh:
  assumes "inj g" "invariant g s"
  shows "g (uuid_calls s) \<notin> fst ` set (pendingRequests s)"
proof
  assume "g (uuid_calls s) \<in> fst ` set (pendingRequests s)"
  with assms(2) obtain k where "k < uuid_calls s" "g (uuid_calls s) = g k"
    using invariant_keys_issued by blast
  with assms(1) show False by (auto dest: injD)
qed

lemma executeCommand_absent:
  "extensionSocket s = None \<Longrightarrow>
   executeCommand g c t s = s\<lparr>promises := promises s + 1, resolved := resolved s @ [(promises s, not_connected)]\<rparr>"
  by (simp add: executeCommand_def Let_def resolve_def)

lemma executeCommand_sent:
  "extensionSocket s = Some ws \<Longrightarrow>
   executeCommand g c False s =
     s\<lparr>promises := promises s + 1, uuid_calls := uuid_calls s + 1,
       pendingRequests := Map_set (g (uuid_calls s)) (promises s) (pendingRequests s),
       timers := timers s @ [(clock s + 30000, g (uuid_calls s), promises s)],
       sent := sent s @ [(ws, JSON_stringify (message_literal (g (uuid_calls s)) c))]\<rparr>"
  by (simp add: executeCommand_def Let_def)

lemma executeCommand_throws:
  "extensionSocket s = Some ws \<Longrightarrow>
   executeCommand g c True s =
     s\<lparr>promises := promises s + 1, uuid_calls := uuid_calls s + 1,
       pendingRequests := Map_delete (g (uuid_calls s)) (Map_set (g (uuid_calls s)) (promises s) (pendingRequests s)),
       timers := timers s @ [(clock s + 30000, g (uuid_calls s), promises s)],
       resolved := resolved s @ [(promises s, send_failed)]\<rparr>"
  by (simp add: executeCommand_def Let_def resolve_def)

lemma invariant_immediate:
  assumes inv: "invariant g s"
    and f: "promises s' = promises s + 1" "uuid_calls s \<le> uuid_calls s'"
      "pendingRequests s' = pendingRequests s" "resolved s' = resolved s @ [(promises s, v)]"
      "set (timers s') \<subseteq> insert (due, g (uuid_calls s), promises s) (set (timers s))"
      "set (timers s) \<subseteq> set (timers s')"
    and fresh: "g (uuid_calls s) \<notin> fst ` set (pendingRequests s)"
      "timers s' = timers s \<or> uuid_calls s < uuid_calls s'"
  shows "invariant g s'"
proof -
  from inv have t: "table_ok g s" and wo: "waiters_ok s" and ti: "timers_ok g s"
    by (simp_all add: invariant_def)
  have "table_ok g s'"
    unfolding table_ok_def f
  proof (intro conjI allI impI)
    show "distinct (map fst (pendingRequests s))" "distinct (map snd (pendingRequests s))"
      using t by (simp_all add: table_ok_def)
  next
    fix rid w assume m: "(rid, w) \<in> set (pendingRequests s)"
    with t have a: "w < promises s" "count_for w (resolved s) = 0" "\<exists>k<uuid_calls s. rid = g k"
      "\<exists>due. (due, rid, w) \<in> set (timers s)"
      by (auto simp: table_ok_def)
    from a(1) show "w < promises s + 1" by simp
    from a(1,2) show "count_for w (resolved s @ [(promises s, v)]) = 0" by (simp add: count_for_snoc)
    from a(3) f(2) show "\<exists>k<uuid_calls s'. rid = g k" by (rule issued_mono)
    from a(4) f(6) show "\<exists>due. (due, rid, w) \<in> set (timers s')" by blast
  qed
  moreover have "waiters_ok s'"
    unfolding waiters_ok_def f
  proof (intro conjI allI impI)
    fix u assume u: "u < promises s + 1" "u \<notin> snd ` set (pendingRequests s)"
    show "count_for u (resolved s @ [(promises s, v)]) = 1"
    proof (cases "u = promises s")
      case True
      with wo show ?thesis by (simp add: waiters_ok_def count_for_snoc)
    next
      case False
      with u wo show ?thesis by (simp add: waiters_ok_def count_for_snoc)
    qed
  next
    fix u assume "promises s + 1 \<le> u"
    with wo show "count_for u (resolved s @ [(promises s, v)]) = 0"
      by (simp add: waiters_ok_def count_for_snoc)
  qed
  moreover have "timers_ok g s'"
    unfolding timers_ok_def f
  proof (intro allI impI)
    fix d rid w assume m: "(d, rid, w) \<in> set (timers s')"
    show "w < promises s + 1 \<and> (\<exists>k<uuid_calls s'. rid = g k) \<and>
        (\<forall>w'. (rid, w') \<in> set (pendingRequests s) \<longrightarrow> w' = w)"
    proof (cases "(d, rid, w) \<in> set (timers s)")
      case True
      with ti have "w < promises s" "\<exists>k<uuid_calls s. rid = g k"
        "\<forall>w'. (rid, w') \<in> set (pendingRequests s) \<longrightarrow> w' = w"
        by (auto simp: timers_ok_def)
      with f(2) issued_mono [of "uuid_calls s" rid g "uuid_calls s'"] show ?thesis by simp
    next
      case False
      with m f(5) have e: "rid = g (uuid_calls s)" "w = promises s" by auto
      from False m fresh(2) have "uuid_calls s < uuid_calls s'" by auto
      with e fresh(1) show ?thesis by force
    qed
  qed
  ultimately show ?thesis by (simp add: invariant_def)
qed

lemma invariant_register:
  assumes inv: "invariant g s"
    and f: "promises s' = promises s + 1" "uuid_calls s' = uuid_calls s + 1"
      "pendingRequests s' = pendingRequests s @ [(g (uuid_calls s), promises s)]"
      "resolved s' = resolved s"
      "timers s' = timers s @ [(due, g (uuid_calls s), promises s)]"
    and fresh: "inj g"
  shows "invariant g s'"
proof -
  from inv have t: "table_ok g s" and wo: "waiters_ok s" and ti: "timers_ok g s"
    by (simp_all add: invariant_def)
  have nk: "g (uuid_calls s) \<notin> fst ` set (pendingRequests s)"
    using fresh inv by (rule invariant_fresh)
  have nw: "promises s \<notin> snd ` set (pendingRequests s)"
    using t by (fastforce simp: table_ok_def)
  have "table_ok g s'"
    unfolding table_ok_def f
  proof (intro conjI allI impI)
    show "distinct (map fst (pendingRequests s @ [(g (uuid_calls s), promises s)]))"
      using t nk by (simp add: table_ok_def)
    show "distinct (map snd (pendingRequests s @ [(g (uuid_calls s), promises s)]))"
      using t nw by (simp add: table_ok_def)
  next
    fix rid w assume m: "(rid, w) \<in> set (pendingRequests s @ [(g (uuid_calls s), promises s)])"
    show "w < promises s + 1" "count_for w (resolved s) = 0" "\<exists>k<uuid_calls s + 1. rid = g k"
      "\<exists>d. (d, rid, w) \<in> set (timers s @ [(due, g (uuid_calls s), promises s)])"
    proof -
      consider "(rid, w) \<in> set (pendingRequests s)" | "rid = g (uuid_calls s)" "w = promises s"
        using m by auto
      then have "w < promises s + 1 \<and> count_for w (resolved s) = 0 \<and> (\<exists>k<uuid_calls s + 1. rid = g k) \<and>
        (\<exists>d. (d, rid, w) \<in> set (timers s @ [(due, g (uuid_calls s), promises s)]))"
      proof cases
        case 1
        with t have a: "w < promises s" "count_for w (resolved s) = 0" "\<exists>k<uuid_calls s. rid = g k"
          "\<exists>d. (d, rid, w) \<in> set (timers s)"
          by (auto simp: table_ok_def)
        from a(3) have "\<exists>k<uuid_calls s + 1. rid = g k" by (rule issued_mono) simp
        with a show ?thesis by auto
      next
        case 2
        with wo show ?thesis by (auto simp: waiters_ok_def)
      qed
      then show "w < promises s + 1" "count_for w (resolved s) = 0" "\<exists>k<uuid_calls s + 1. rid = g k"
        "\<exists>d. (d, rid, w) \<in> set (timers s @ [(due, g (uuid_calls s), promises s)])"
        by blast+
    qed
  qed
  moreover have "waiters_ok s'"
    unfolding waiters_ok_def f
  proof (intro conjI allI impI)
    fix u assume u: "u < promises s + 1" "u \<notin> snd ` set (pendingRequests s @ [(g (uuid_calls s), promises s)])"
    then have "u < promises s" "u \<notin> snd ` set (pendingRequests s)" by auto
    with wo show "count_for u (resolved s) = 1" by (simp add: waiters_ok_def)
  next
    fix u assume "promises s + 1 \<le> u"
    with wo show "count_for u (resolved s) = 0" by (simp add: waiters_ok_def)
  qed
  moreover have "timers_ok g s'"
    unfolding timers_ok_def f
  proof (intro allI impI)
    fix d rid w assume m: "(d, rid, w) \<in> set (timers s @ [(due, g (uuid_calls s), promises s)])"
    show "w < promises s + 1 \<and> (\<exists>k<uuid_calls s + 1. rid = g k) \<and>
        (\<forall>w'. (rid, w') \<in> set (pendingRequests s @ [(g (uuid_calls s), promises s)]) \<longrightarrow> w' = w)"
    proof (cases "(d, rid, w) \<in> set (timers s)")
      case True
      with ti have a: "w < promises s" "\<exists>k<uuid_calls s. rid = g k"
        "\<forall>w'. (rid, w') \<in> set (pendingRequests s) \<longrightarrow> w' = w"
        by (auto simp: timers_ok_def)
      from a(2) fresh have "rid \<noteq> g (uuid_calls s)" by (auto dest: injD)
      moreover from a(2) have "\<exists>k<uuid_calls s + 1. rid = g k" by (rule issued_mono) simp
      ultimately show ?thesis using a(1,3) by auto
    next
      case False
      with m have e: "rid = g (uuid_calls s)" "w = promises s" by auto
      with nk show ?thesis by force
    qed
  qed
  ultimately show ?thesis by (simp add: invariant_def)
qed

lemma invariant_executeCommand:
  assumes "inj g" "invariant g s"
  shows "invariant g (executeCommand g c t s)"
proof (cases "extensionSocket s")
  case None
  show ?thesis
    by (rule invariant_immediate [OF assms(2), where v = not_connected and due = 0])
      (simp_all add: executeCommand_absent [OF None] invariant_fresh [OF assms] subset_insertI)
next
  case (Some ws)
  note nk = invariant_fresh [OF assms]
  show ?thesis
  proof (cases t)
    case True
    show ?thesis
      by (rule invariant_immediate [OF assms(2), where v = send_failed and due = "clock s + 30000"])
        (simp_all add: True executeCommand_throws [OF Some] nk Map_set_fresh Map_delete_append_fresh subset_insertI)
  next
    case False
    show ?thesis
      by (rule invariant_register [OF assms(2) _ _ _ _ _ assms(1), where due = "clock s + 30000"])
        (simp_all add: False executeCommand_sent [OF Some] nk Map_set_fresh)
  qed
qed

lemma set_without_nth:
  assumes "i < length ts"
  shows "set (dequeue i ts) \<subseteq> set ts"
    and "x \<in> set ts \<Longrightarrow> x \<noteq> ts ! i \<Longrightarrow> x \<in> set (dequeue i ts)"
proof -
  from assms have "ts = take i ts @ ts ! i # drop (Suc i) ts" by (rule id_take_nth_drop)
  then have e: "set ts = insert (ts ! i) (set (dequeue i ts))"
    unfolding dequeue_def by (metis Un_insert_right list.simps(15) set_append)
  from e show "set (dequeue i ts) \<subseteq> set ts" by blast
  from e show "x \<in> set ts \<Longrightarrow> x \<noteq> ts ! i \<Longrightarrow> x \<in> set (dequeue i ts)" by blast
qed

lemma Map_has_iff: "Map_has m k \<longleftrightarrow> k \<in> fst ` set m"
  by (simp add: Map_has_def map_of_eq_None_iff)

lemma invariant_drop_timer:
  assumes inv: "invariant g s" and absent: "rid \<notin> fst ` set (pendingRequests s)"
    and f: "set (timers s') \<subseteq> set (timers s)"
      "\<And>due rid' w'. (due, rid', w') \<in> set (timers s) \<Longrightarrow> rid' \<noteq> rid \<Longrightarrow> (due, rid', w') \<in> set (timers s')"
      "promises s' = promises s" "uuid_calls s' = uuid_calls s"
      "pendingRequests s' = pendingRequests s" "resolved s' = resolved s"
  shows "invariant g s'"
proof -
  from inv have t: "table_ok g s" and wo: "waiters_ok s" and ti: "timers_ok g s"
    by (simp_all add: invariant_def)
  have "table_ok g s'"
    unfolding table_ok_def f
  proof (intro conjI allI impI)
    show "distinct (map fst (pendingRequests s))" "distinct (map snd (pendingRequests s))"
      using t by (simp_all add: table_ok_def)
  next
    fix rid' w assume m: "(rid', w) \<in> set (pendingRequests s)"
    with t have a: "w < promises s" "count_for w (resolved s) = 0" "\<exists>k<uuid_calls s. rid' = g k"
      "\<exists>due. (due, rid', w) \<in> set (timers s)"
      by (auto simp: table_ok_def)
    from m absent have "rid' \<noteq> rid" by force
    with a(4) f(2) have "\<exists>due. (due, rid', w) \<in> set (timers s')" by blast
    with a show "w < promises s" "count_for w (resolved s) = 0" "\<exists>k<uuid_calls s. rid' = g k"
      "\<exists>due. (due, rid', w) \<in> set (timers s')"
      by simp_all
  qed
  moreover from wo have "waiters_ok s'"
    by (simp add: waiters_ok_def f)
  moreover have "timers_ok g s'"
    unfolding timers_ok_def f
  proof (intro allI impI)
    fix due rid' w' assume "(due, rid', w') \<in> set (timers s')"
    with f(1) have "(due, rid', w') \<in> set (timers s)" by auto
    with ti show "w' < promises s \<and> (\<exists>k<uuid_calls s. rid' = g k) \<and>
        (\<forall>w'a. (rid', w'a) \<in> set (pendingRequests s) \<longrightarrow> w'a = w')"
      by (auto simp: timers_ok_def)
  qed
  ultimately show ?thesis by (simp add: invariant_def)
qed

lemma invariant_run_timer:
  assumes inv: "invariant g s"
  shows "invariant g (run_timer i s)"
proof (cases "i < length (timers s) \<and> fst (timers s ! i) \<le> clock s")
  case False
  then have "run_timer i s = s" unfolding run_timer_def by (rule if_not_P)
  with inv show ?thesis by simp
next
  case True
  then have i: "i < length (timers s)" by simp
  obtain due rid w where e: "timers s ! i = (due, rid, w)" by (cases "timers s ! i")
  let ?ts = "dequeue i (timers s)"
  from i e have mem: "(due, rid, w) \<in> set (timers s)" by (metis nth_mem)
  have sub: "set ?ts \<subseteq> set (timers s)" using i by (rule set_without_nth)
  have keep: "(due', rid', w') \<in> set ?ts" if "(due', rid', w') \<in> set (timers s)" "rid' \<noteq> rid" for due' rid' w'
    using set_without_nth(2) [OF i that(1)] that(2) e by simp
  from True have "run_timer i s = (case timers s ! i of (due, rid, w) \<Rightarrow> timeout_callback rid w (s\<lparr>timers := ?ts\<rparr>))"
    unfolding run_timer_def by (rule if_P)
  with e have r: "run_timer i s = timeout_callback rid w (s\<lparr>timers := ?ts\<rparr>)"
    by simp
  show ?thesis
  proof (cases "rid \<in> fst ` set (pendingRequests s)")
    case False
    then have "run_timer i s = s\<lparr>timers := ?ts\<rparr>"
      by (simp add: r timeout_callback_def Map_has_iff)
    then show ?thesis
      using invariant_drop_timer [OF inv False, of "s\<lparr>timers := ?ts\<rparr>"] sub keep by simp
  next
    case True
    then obtain w' where p: "(rid, w') \<in> set (pendingRequests s)" by auto
    from inv mem p have "w' = w" by (auto simp: invariant_def timers_ok_def)
    with p have p': "(rid, w) \<in> set (pendingRequests s)" by simp
    from True have r': "run_timer i s =
        resolve w request_timeout (s\<lparr>timers := ?ts, pendingRequests := Map_delete rid (pendingRequests s)\<rparr>)"
      by (simp add: r timeout_callback_def Map_has_iff)
    show ?thesis
      by (rule invariant_settle [OF inv p', where v = request_timeout])
        (simp_all add: r' resolve_fields sub keep)
  qed
qed

lemma invariant_step: "inj g \<Longrightarrow> invariant g s \<Longrightarrow> invariant g (step g e s)"
  by (cases e)
    (simp_all add: invariant_on_connection invariant_on_close invariant_on_message on_error_def
      invariant_console_log invariant_executeCommand invariant_tick invariant_run_timer)

lemma invariant_run: "inj g \<Longrightarrow> invariant g s \<Longrightarrow> invariant g (run g es s)"
  by (induction es arbitrary: s) (simp_all add: invariant_step)

lemma invariant_reachable: "inj g \<Longrightarrow> invariant g (run g es constructor)"
  by (simp add: invariant_run invariant_constructor)

subsection \<open>Evaluating examples\<close>

lemmas run_defs =
  overflow_reply_def hover_big_def constant_uuid_def on_error_def extensionConnected_def status_pendingRequests_def hover_def read_x_def
  click_y_def read_x_5s_def read_x_mine_def hello_reply_def executeCommand_def
  on_connection_def on_close_def on_message_def handleExtensionMessage_def
  destructure_id_def timeout_callback_def run_timer_def dequeue_def resolve_def
  console_log_def constructor_def Map_get_def Map_has_def Map_delete_def
  message_literal_def sample_uuid_def Let_def

lemma inj_sample_uuid: "inj sample_uuid"
proof (rule injI)
  fix m n assume "sample_uuid m = sample_uuid n"
  then have "length (sample_uuid m) = length (sample_uuid n)" by simp
  then show "m = n" by (simp add: sample_uuid_def)
qed

lemma settled_fresh: "count_for w rs = 0 \<Longrightarrow> map_of (rs @ xs) w = map_of xs w"
proof (induction rs)
  case Nil
  then show ?case by simp
next
  case (Cons r rs)
  then show ?case by (cases r) (auto simp: count_for_def split: if_splits)
qed

lemma map_of_drain:
  "w \<in> snd ` set m \<Longrightarrow> map_of (map (\<lambda>(rid, w'). (w', v)) m) w = Some v"
  by (induction m) auto

subsection \<open>The cases of one step\<close>

lemma settled_new:
  "invariant g s \<Longrightarrow> map_of (resolved s @ [(promises s, v)]) (promises s) = Some v"
proof -
  assume "invariant g s"
  then have "count_for (promises s) (resolved s) = 0" by (simp add: invariant_def waiters_ok_def)
  then have "map_of (resolved s @ [(promises s, v)]) (promises s) = map_of [(promises s, v)] (promises s)"
    by (rule settled_fresh)
  then show ?thesis by simp
qed

lemma keys_Map_set: "fst ` set (Map_set k v m) = insert k (fst ` set m)"
proof -
  have "dom (map_of (Map_set k v m)) = insert k (dom (map_of m))"
    by (auto simp: dom_def map_of_Map_set)
  then show ?thesis by (simp add: dom_map_of_conv_image_fst)
qed

lemma keys_Map_delete: "fst ` set (Map_delete k m) = fst ` set m - {k}"
  by (auto simp: Map_delete_def)

lemma handleExtensionMessage_cases:
  "handleExtensionMessage m s = Inl TypeError \<and> m = JNull
   \<or> handleExtensionMessage m s = Inr s
   \<or> (\<exists>rid w. get_prop m ''id'' = Some (JStr rid) \<and> Map_get (pendingRequests s) rid = Some w
        \<and> handleExtensionMessage m s =
            Inr (resolve w m (s\<lparr>pendingRequests := Map_delete rid (pendingRequests s)\<rparr>)))"
  by (auto simp: handleExtensionMessage_def destructure_id_def split: option.splits json.splits)

lemma on_message_cases:
  "(\<exists>l. on_message parsed s = console_log l s)
   \<or> on_message parsed s = s
   \<or> (\<exists>m rid w. parsed = Some m \<and> get_prop m ''id'' = Some (JStr rid)
        \<and> Map_get (pendingRequests s) rid = Some w
        \<and> on_message parsed s = resolve w m (s\<lparr>pendingRequests := Map_delete rid (pendingRequests s)\<rparr>))"
proof (cases parsed)
  case None
  then show ?thesis by (auto simp: on_message_def)
next
  case (Some m)
  with handleExtensionMessage_cases [of m s] show ?thesis
    by (auto simp: on_message_def)
qed

lemma run_timer_cases:
  "run_timer i s = s
   \<or> (i < length (timers s) \<and> fst (timers s ! i) \<le> clock s \<and>
      (\<exists>due rid w. timers s ! i = (due, rid, w) \<and>
        (run_timer i s = s\<lparr>timers := dequeue i (timers s)\<rparr> \<and> \<not> Map_has (pendingRequests s) rid
         \<or> run_timer i s = resolve w request_timeout
              (s\<lparr>timers := dequeue i (timers s), pendingRequests := Map_delete rid (pendingRequests s)\<rparr>)
            \<and> Map_has (pendingRequests s) rid)))"
proof (cases "i < length (timers s) \<and> fst (timers s ! i) \<le> clock s")
  case False
  then have "run_timer i s = s" unfolding run_timer_def by (rule if_not_P)
  then show ?thesis by simp
next
  case True
  obtain due rid w where e: "timers s ! i = (due, rid, w)" by (cases "timers s ! i")
  from True have "run_timer i s =
      (case timers s ! i of (due, rid, w) \<Rightarrow> timeout_callback rid w (s\<lparr>timers := dequeue i (timers s)\<rparr>))"
    unfolding run_timer_def by (rule if_P)
  with e have "run_timer i s = timeout_callback rid w (s\<lparr>timers := dequeue i (timers s)\<rparr>)" by simp
  with True e show ?thesis by (auto simp: timeout_callback_def)
qed

lemma executeCommand_cases:
  "extensionSocket s = None \<and>
     executeCommand g c t s = s\<lparr>promises := promises s + 1, resolved := resolved s @ [(promises s, not_connected)]\<rparr>
   \<or> (\<exists>ws. extensionSocket s = Some ws \<and> \<not> t \<and>
        executeCommand g c t s =
          s\<lparr>promises := promises s + 1, uuid_calls := uuid_calls s + 1,
            pendingRequests := Map_set (g (uuid_calls s)) (promises s) (pendingRequests s),
            timers := timers s @ [(clock s + 30000, g (uuid_calls s), promises s)],
            sent := sent s @ [(ws, JSON_stringify (message_literal (g (uuid_calls s)) c))]\<rparr>)
   \<or> (\<exists>ws. extensionSocket s = Some ws \<and> t \<and>
        executeCommand g c t s =
          s\<lparr>promises := promises s + 1, uuid_calls := uuid_calls s + 1,
            pendingRequests := Map_delete (g (uuid_calls s)) (Map_set (g (uuid_calls s)) (promises s) (pendingRequests s)),
            timers := timers s @ [(clock s + 30000, g (uuid_calls s), promises s)],
            resolved := resolved s @ [(promises s, send_failed)]\<rparr>)"
proof (cases "extensionSocket s")
  case None
  then show ?thesis by (simp add: executeCommand_absent)
next
  case (Some ws)
  then show ?thesis by (cases t) (simp_all add: executeCommand_sent executeCommand_throws)
qed

lemma keys_step_aux:
  "pendingRequests s' = pendingRequests s \<or> pendingRequests s' = [] \<or>
   (\<exists>k. pendingRequests s' = Map_delete k (pendingRequests s)) \<or>
   pendingRequests s' = Map_set r w (pendingRequests s) \<or>
   pendingRequests s' = Map_delete r (Map_set r w (pendingRequests s)) \<Longrightarrow>
   fst ` set (pendingRequests s') \<subseteq> insert r (fst ` set (pendingRequests s))"
  by (elim disjE exE) (simp_all add: keys_Map_delete keys_Map_set subset_insertI Diff_subset subset_insertI2)

lemma keys_step:
  "fst ` set (pendingRequests (step g e s)) \<subseteq> insert (g (uuid_calls s)) (fst ` set (pendingRequests s))"
proof -
  let ?p = "pendingRequests (step g e s)" and ?r = "g (uuid_calls s)"
  have "?p = pendingRequests s \<or> ?p = [] \<or>
      (\<exists>k. ?p = Map_delete k (pendingRequests s)) \<or>
      ?p = Map_set ?r (promises s) (pendingRequests s) \<or>
      ?p = Map_delete ?r (Map_set ?r (promises s) (pendingRequests s))"
  proof (cases e)
    case (Connection ws)
    then show ?thesis by (simp add: on_connection_def console_log_def)
  next
  case (SocketError ws)
    then show ?thesis by (simp add: on_error_def console_log_def)
  next
    case (Close ws)
    then show ?thesis by (simp add: on_close_fields)
  next
    case (Message ws parsed)
    with on_message_cases [of parsed s] show ?thesis
      by (auto simp: console_log_def resolve_fields)
  next
    case (Execute c t)
    with executeCommand_cases [of s g c t] show ?thesis
      by auto
  next
    case (Tick d)
    then show ?thesis by simp
  next
    case (Timeout i)
    with run_timer_cases [of i s] show ?thesis
      by (auto simp: resolve_fields)
  qed
  then show ?thesis by (rule keys_step_aux)
qed

lemma uuid_calls_step: "uuid_calls s \<le> uuid_calls (step g e s)"
proof (cases e)
  case (Connection ws)
  then show ?thesis by (simp add: on_connection_def console_log_def)
next
  case (SocketError ws)
  then show ?thesis by (simp add: on_error_def console_log_def)
next
  case (Close ws)
  then show ?thesis by (simp add: on_close_fields)
next
  case (Message ws parsed)
  with on_message_cases [of parsed s] show ?thesis
    by (auto simp: console_log_def resolve_fields)
next
  case (Execute c t)
  with executeCommand_cases [of s g c t] show ?thesis by auto
next
  case (Tick d)
  then show ?thesis by simp
next
  case (Timeout i)
  with run_timer_cases [of i s] show ?thesis
    by (auto simp: resolve_fields)
qed

lemma uuid_calls_run: "uuid_calls s \<le> uuid_calls (run g es s)"
proof (induction es arbitrary: s)
  case Nil
  then show ?case by simp
next
  case (Cons e es)
  have "uuid_calls s \<le> uuid_calls (step g e s)" by (rule uuid_calls_step)
  also have "\<dots> \<le> uuid_calls (run g es (step g e s))" by (rule Cons.IH)
  finally show ?case by simp
qed

text \<open>An identifier that has left the table never comes back.\<close>

lemma removed_key_step:
  assumes "inj g" "k < uuid_calls s" "g k \<notin> fst ` set (pendingRequests s)"
  shows "g k \<notin> fst ` set (pendingRequests (step g e s))"
proof
  assume "g k \<in> fst ` set (pendingRequests (step g e s))"
  with keys_step [of g e s] assms(3) have "g k = g (uuid_calls s)" by auto
  with assms(1) have "k = uuid_calls s" by (auto dest: injD)
  with assms(2) show False by simp
qed

lemma removed_key_run:
  assumes "inj g"
  shows "k < uuid_calls s \<Longrightarrow> g k \<notin> fst ` set (pendingRequests s) \<Longrightarrow>
    g k \<notin> fst ` set (pendingRequests (run g es s))"
proof (induction es arbitrary: s)
  case Nil
  then show ?case by simp
next
  case (Cons e es)
  from Cons.prems(1) uuid_calls_step [of s g e] have "k < uuid_calls (step g e s)" by simp
  moreover from assms Cons.prems have "g k \<notin> fst ` set (pendingRequests (step g e s))"
    by (rule removed_key_step)
  ultimately show ?case using Cons.IH by simp
qed

lemma on_message_match:
  assumes "get_prop m ''id'' = Some (JStr a)" "Map_get (pendingRequests t) a = Some w"
  shows "on_message (Some m) t = resolve w m (t\<lparr>pendingRequests := Map_delete a (pendingRequests t)\<rparr>)"
proof -
  from assms(1) have "m \<noteq> JNull" by auto
  with assms show ?thesis
    by (simp add: on_message_def handleExtensionMessage_def destructure_id_def)
qed

lemma Map_get_Map_set: "Map_get (Map_set k v m) k' = (if k' = k then Some v else Map_get m k')"
  by (simp add: Map_get_def map_of_Map_set)

lemma Map_get_Map_delete: "Map_get (Map_delete k m) k' = (if k' = k then None else Map_get m k')"
  by (simp add: Map_get_def map_of_Map_delete)

subsection \<open>Iterated steps\<close>

lemma run_append: "run g (es @ es') s = run g es' (run g es s)"
  by (induction es arbitrary: s) simp_all

lemma resolved_step: "\<exists>xs. resolved (step g e s) = resolved s @ xs"
proof (cases e)
  case (Connection ws)
  then show ?thesis by (simp add: on_connection_def console_log_def)
next
  case (SocketError ws)
  then show ?thesis by (simp add: on_error_def console_log_def)
next
  case (Close ws)
  then show ?thesis by (simp add: on_close_fields)
next
  case (Message ws parsed)
  with on_message_cases [of parsed s] show ?thesis
    by (auto simp: console_log_def resolve_fields)
next
  case (Execute c t)
  with executeCommand_cases [of s g c t] show ?thesis by auto
next
  case (Tick d)
  then show ?thesis by simp
next
  case (Timeout i)
  with run_timer_cases [of i s] show ?thesis
    by (auto simp: resolve_fields)
qed

lemma count_for_step: "count_for w (resolved s) \<le> count_for w (resolved (step g e s))"
proof -
  from resolved_step [of g e s] obtain xs where "resolved (step g e s) = resolved s @ xs" ..
  then show ?thesis by (simp add: count_for_append)
qed

lemma count_for_run: "count_for w (resolved s) \<le> count_for w (resolved (run g es s))"
proof (induction es arbitrary: s)
  case Nil
  then show ?case by simp
next
  case (Cons e es)
  have "count_for w (resolved s) \<le> count_for w (resolved (step g e s))" by (rule count_for_step)
  also have "\<dots> \<le> count_for w (resolved (run g es (step g e s)))" by (rule Cons.IH)
  finally show ?case by simp
qed

lemma promises_step: "promises s \<le> promises (step g e s)"
proof (cases e)
  case (Connection ws)
  then show ?thesis by (simp add: on_connection_def console_log_def)
next
  case (SocketError ws)
  then show ?thesis by (simp add: on_error_def console_log_def)
next
  case (Close ws)
  then show ?thesis by (simp add: on_close_fields)
next
  case (Message ws parsed)
  with on_message_cases [of parsed s] show ?thesis
    by (auto simp: console_log_def resolve_fields)
next
  case (Execute c t)
  with executeCommand_cases [of s g c t] show ?thesis by auto
next
  case (Tick d)
  then show ?thesis by simp
next
  case (Timeout i)
  with run_timer_cases [of i s] show ?thesis
    by (auto simp: resolve_fields)
qed

lemma promises_run: "promises s \<le> promises (run g es s)"
proof (induction es arbitrary: s)
  case Nil
  then show ?case by simp
next
  case (Cons e es)
  have "promises s \<le> promises (step g e s)" by (rule promises_step)
  also have "\<dots> \<le> promises (run g es (step g e s))" by (rule Cons.IH)
  finally show ?case by simp
qed

subsection \<open>What the invariant gives for one promise\<close>

lemma invariant_at_most_one: "invariant g s \<Longrightarrow> count_for w (resolved s) \<le> 1"
proof -
  assume inv: "invariant g s"
  consider "w \<in> snd ` set (pendingRequests s)" | "w \<notin> snd ` set (pendingRequests s)" "w < promises s"
    | "promises s \<le> w"
    by fastforce
  then show ?thesis
  proof cases
    case 1
    with inv have "count_for w (resolved s) = 0" by (auto simp: invariant_def table_ok_def)
    then show ?thesis by simp
  next
    case 2
    with inv have "count_for w (resolved s) = 1" by (simp add: invariant_def waiters_ok_def)
    then show ?thesis by simp
  next
    case 3
    with inv have "count_for w (resolved s) = 0" by (simp add: invariant_def waiters_ok_def)
    then show ?thesis by simp
  qed
qed

lemma invariant_resolved_or_waiting:
  assumes inv: "invariant g s" and w: "w < promises s"
  shows "count_for w (resolved s) = 1 \<or>
    (\<exists>due rid. (due, rid, w) \<in> set (timers s) \<and> Map_get (pendingRequests s) rid = Some w)"
proof (cases "w \<in> snd ` set (pendingRequests s)")
  case False
  with inv w show ?thesis by (simp add: invariant_def waiters_ok_def)
next
  case True
  then obtain rid where p: "(rid, w) \<in> set (pendingRequests s)" by auto
  with inv obtain due where "(due, rid, w) \<in> set (timers s)"
    by (auto simp: invariant_def table_ok_def)
  moreover from inv have "distinct (map fst (pendingRequests s))"
    by (simp add: invariant_def table_ok_def)
  with p have "Map_get (pendingRequests s) rid = Some w" by (simp add: Map_get_def)
  ultimately show ?thesis by blast
qed

subsection \<open>Every timer runs\<close>

lemma fold_max_base: "a \<le> fold max xs a" for a :: nat
proof (induction xs arbitrary: a)
  case Nil
  then show ?case by simp
next
  case (Cons y ys)
  have "a \<le> max y a" by simp
  also have "\<dots> \<le> fold max ys (max y a)" by (rule Cons.IH)
  finally show ?case by simp
qed

lemma fold_max_ge: "x \<in> set xs \<Longrightarrow> x \<le> fold max xs a" for a :: nat
proof (induction xs arbitrary: a)
  case Nil
  then show ?case by simp
next
  case (Cons y ys)
  show ?case
  proof (cases "x = y")
    case True
    have "y \<le> max y a" by simp
    also have "\<dots> \<le> fold max ys (max y a)" by (rule fold_max_base)
    finally show ?thesis using True by simp
  next
    case False
    with Cons.prems have "x \<in> set ys" by simp
    then have "x \<le> fold max ys (max y a)" by (rule Cons.IH)
    then show ?thesis by simp
  qed
qed

lemma run_timer_head:
  assumes "timers s = t # ts" "fst t \<le> clock s"
  shows "timers (run_timer 0 s) = ts" "clock (run_timer 0 s) = clock s"
proof -
  obtain due rid w where t: "t = (due, rid, w)" by (cases t)
  with assms have "run_timer 0 s = timeout_callback rid w (s\<lparr>timers := ts\<rparr>)"
    by (simp add: run_timer_def dequeue_def)
  then show "timers (run_timer 0 s) = ts" "clock (run_timer 0 s) = clock s"
    by (simp_all add: timeout_callback_def resolve_def)
qed

lemma run_due_timers:
  "length (timers s) = n \<Longrightarrow> \<forall>t \<in> set (timers s). fst t \<le> clock s \<Longrightarrow>
   timers (run g (replicate n (Timeout 0)) s) = []"
proof (induction n arbitrary: s)
  case 0
  then show ?case by simp
next
  case (Suc n)
  then obtain t ts where e: "timers s = t # ts" by (cases "timers s") auto
  with Suc.prems have due: "fst t \<le> clock s" by simp
  note h = run_timer_head [OF e due]
  from Suc.prems e have "length (timers (run_timer 0 s)) = n"
    "\<forall>t \<in> set (timers (run_timer 0 s)). fst t \<le> clock (run_timer 0 s)"
    by (simp_all add: h)
  then have "timers (run g (replicate n (Timeout 0)) (run_timer 0 s)) = []" by (rule Suc.IH)
  then show ?case by simp
qed

lemma timers_expire: "timers (run g (expire s) s) = []"
proof -
  let ?d = "fold max (map fst (timers s)) 0"
  let ?s = "s\<lparr>clock := clock s + ?d\<rparr>"
  have "\<forall>t \<in> set (timers ?s). fst t \<le> clock ?s"
  proof
    fix t assume "t \<in> set (timers ?s)"
    then have "fst t \<in> set (map fst (timers s))" by simp
    then have "fst t \<le> ?d" by (rule fold_max_ge)
    then show "fst t \<le> clock ?s" by simp
  qed
  moreover have "length (timers ?s) = length (timers s)" by simp
  ultimately have "timers (run g (replicate (length (timers s)) (Timeout 0)) ?s) = []"
    by (rule run_due_timers [rotated])
  then show ?thesis by (simp add: expire_def)
qed

subsection \<open>Where a result comes from\<close>

lemma origin_step:
  assumes "(w, v) \<in> set (resolved (step g e s))"
  shows "(w, v) \<in> set (resolved s) \<or> v \<in> {not_connected, send_failed, request_timeout, disconnected}
    \<or> (\<exists>ws. e = Message ws (Some v))"
proof (cases e)
  case (Connection ws)
  with assms show ?thesis by (simp add: on_connection_def console_log_def)
next
  case (SocketError ws)
  with assms show ?thesis by (simp add: on_error_def console_log_def)
next
  case (Close ws)
  with assms show ?thesis by (auto simp: on_close_fields)
next
  case (Message ws parsed)
  with assms on_message_cases [of parsed s] show ?thesis
    by (auto simp: console_log_def resolve_fields)
next
  case (Execute c t)
  with assms executeCommand_cases [of s g c t] show ?thesis by auto
next
  case (Tick d)
  with assms show ?thesis by simp
next
  case (Timeout i)
  with assms run_timer_cases [of i s] show ?thesis
    by (auto simp: resolve_fields)
qed

lemma origin_run:
  "(w, v) \<in> set (resolved (run g es s)) \<Longrightarrow>
   (w, v) \<in> set (resolved s) \<or> v \<in> {not_connected, send_failed, request_timeout, disconnected}
    \<or> (\<exists>ws. Message ws (Some v) \<in> set es)"
proof (induction es arbitrary: s)
  case Nil
  then show ?case by simp
next
  case (Cons e es)
  from Cons.prems have "(w, v) \<in> set (resolved (run g es (step g e s)))" by simp
  then have "(w, v) \<in> set (resolved (step g e s)) \<or> v \<in> {not_connected, send_failed, request_timeout, disconnected}
    \<or> (\<exists>ws. Message ws (Some v) \<in> set es)"
    by (rule Cons.IH)
  with origin_step [of w v g e s] show ?case by auto
qed

subsection \<open>A timer before and after its due time\<close>

lemma Map_has_Map_set: "Map_has (Map_set k v m) k' \<longleftrightarrow> k' = k \<or> Map_has m k'"
  by (simp add: Map_has_def map_of_Map_set)

lemma Map_has_Map_delete: "Map_has (Map_delete k m) k' \<longleftrightarrow> k' \<noteq> k \<and> Map_has m k'"
  by (simp add: Map_has_def map_of_Map_delete)

lemma run_timer_early:
  "i < length (timers s) \<Longrightarrow> clock s < fst (timers s ! i) \<Longrightarrow> run_timer i s = s"
  by (simp add: run_timer_def)

lemma run_timer_due:
  assumes "i < length (timers s)" "timers s ! i = (due, rid, w)" "due \<le> clock s"
  shows "run_timer i s = timeout_callback rid w (s\<lparr>timers := dequeue i (timers s)\<rparr>)"
  using assms by (simp add: run_timer_def)

subsection \<open>The first result stays\<close>



subsection \<open>The fields of the message\<close>

lemma map_of_set_prop: "map_of (set_prop k v ps) k' = (if k' = k then Some v else map_of ps k')"
  by (induction ps) auto

lemma map_of_fold_set_prop:
  "map_of (fold (\<lambda>(k, v). set_prop k v) ps acc) k =
     (case map_of (rev ps) k of Some v \<Rightarrow> Some v | None \<Rightarrow> map_of acc k)"
proof (induction ps arbitrary: acc)
  case Nil
  then show ?case by simp
next
  case (Cons p ps)
  obtain k' v' where p: "p = (k', v')" by (cases p)
  show ?case
    by (simp add: p Cons.IH map_of_set_prop map_add_def split: option.splits)
qed

lemma get_prop_message_literal:
  "get_prop (message_literal rid command) k =
     (case own_prop command k of
        Some v \<Rightarrow> Some v
      | None \<Rightarrow> if k = ''id'' then Some (JStr rid) else None)"
  by (auto simp: message_literal_def own_prop_def map_of_fold_set_prop split: option.splits)

lemma map_of_rev_distinct: "distinct (map fst ps) \<Longrightarrow> map_of (rev ps) k = map_of ps k"
proof (induction ps)
  case Nil
  then show ?case by simp
next
  case (Cons p ps)
  obtain k' v' where p: "p = (k', v')" by (cases p)
  from Cons.prems p have "k' \<notin> fst ` set ps" "distinct (map fst ps)" by auto
  then have "map_of ps k' = None" "map_of (rev ps) k = map_of ps k"
    by (simp_all add: map_of_eq_None_iff Cons.IH)
  then show ?case by (simp add: p map_add_def split: option.splits)
qed

lemma own_prop_object: "distinct (map fst ps) \<Longrightarrow> own_prop (JObj ps) k = get_prop (JObj ps) k"
  by (simp add: own_prop_def map_of_rev_distinct)

subsection \<open>Which events deliver a result\<close>

lemma deliveries_quiet_step:
  assumes "w < promises s" "deliveries (step g e s) w \<noteq> deliveries s w"
  shows "(\<exists>ws m. e = Message ws (Some m)) \<or> (\<exists>ws. e = Close ws) \<or> (\<exists>i. e = Timeout i)"
proof (cases e)
  case (Connection ws)
  with assms(2) show ?thesis by (simp add: deliveries_def on_connection_def console_log_def)
next
  case (SocketError ws)
  with assms(2) show ?thesis by (simp add: deliveries_def on_error_def console_log_def)
next
  case (Close ws)
  then show ?thesis by simp
next
  case (Message ws parsed)
  with assms(2) show ?thesis
    by (cases parsed) (simp_all add: deliveries_def on_message_def console_log_def)
next
  case (Execute c t)
  with assms executeCommand_cases [of s g c t] show ?thesis
    by (auto simp: deliveries_def)
next
  case (Tick d)
  with assms(2) show ?thesis by (simp add: deliveries_def)
next
  case (Timeout i)
  then show ?thesis by simp
qed

subsection \<open>Texts and their fields\<close>

lemma map_of_map_prod:
  "map_of (map (map_prod (\<lambda>k. k) f) ps) k = map_option f (map_of ps k)"
  by (induction ps) auto

lemma text_prop_stringify:
  "text_prop (JSON_stringify v) k = map_option JSON_stringify (get_prop v k)"
  by (cases v) (simp_all add: map_of_map_prod split: number.splits)

lemma JSON_parse_stringify: "plain v \<Longrightarrow> JSON_parse (JSON_stringify v) = v"
proof (induction v)
  case (JNum n)
  then show ?case by (cases n) simp_all
next
  case (JArr xs)
  then have "\<forall>x \<in> set xs. JSON_parse (JSON_stringify x) = x"
    by (simp add: list_all_iff)
  then have "map (\<lambda>x. JSON_parse (JSON_stringify x)) xs = xs"
    by (simp add: map_idI)
  then show ?case by (simp add: comp_def)
next
  case (JObj ps)
  have "map_prod (\<lambda>k. k) JSON_parse (map_prod (\<lambda>k. k) JSON_stringify p) = p" if "p \<in> set ps" for p
  proof -
    obtain k v where p: "p = (k, v)" by (cases p)
    with that JObj.prems have "plain v" by (auto simp: list_all_iff)
    moreover from that p have "v \<in> Basic_BNFs.snds p" by simp
    ultimately have "JSON_parse (JSON_stringify v) = v" using JObj.IH that by blast
    with p show ?thesis by simp
  qed
  then have "map (\<lambda>p. map_prod (\<lambda>k. k) JSON_parse (map_prod (\<lambda>k. k) JSON_stringify p)) ps = ps"
    by (simp add: map_idI)
  then show ?case by (simp add: comp_def)
qed simp_all

lemma text_prop_message_literal:
  "text_prop (JSON_stringify (message_literal rid command)) k =
     (case own_prop command k of
        Some v \<Rightarrow> Some (JSON_stringify v)
      | None \<Rightarrow> if k = ''id'' then Some (TStr rid) else None)"
  by (simp add: text_prop_stringify get_prop_message_literal split: option.splits)

section \<open>The claims\<close>

subsection \<open>C1: exactly one result for every request\<close>

text \<open>
  Claim C1. Every request submitted through \<open>executeCommand\<close> gets exactly one result,
  however replies, timers and closed connections interleave. \<open>uuidv4\<close> is assumed never to
  repeat a value. For every sequence of events from the start and every promise \<open>w\<close> that
  \<open>executeCommand\<close> has created:
  \<^item> \<open>resolve\<close> has been called at most once for \<open>w\<close>;
  \<^item> if it has not been called yet, the request is in the table and its timer is waiting;
  \<^item> once the clock has passed the due times and the timer queue has run its callbacks
    (\<open>expire\<close>), \<open>resolve\<close> has been called exactly once for \<open>w\<close>, and this stays so
    whatever events follow;
  \<^item> the result is one of the relay's four failures (not connected, send failed, timeout,
    disconnected) or a message that the executor sent.
\<close>

theorem exactly_one_result:
  assumes "inj uuidv4" and "s = run uuidv4 es constructor" and "w < promises s"
  shows "deliveries s w \<le> 1
    \<and> (deliveries s w = 1 \<or>
        (\<exists>due rid. (due, rid, w) \<in> set (timers s) \<and> Map_get (pendingRequests s) rid = Some w))
    \<and> deliveries (run uuidv4 (expire s @ es') s) w = 1
    \<and> (\<forall>v. (w, v) \<in> set (resolved s) \<longrightarrow>
          v \<in> {not_connected, send_failed, request_timeout, disconnected}
          \<or> (\<exists>ws. Message ws (Some v) \<in> set es))"
proof (intro conjI allI impI)
  from assms have inv: "invariant uuidv4 s" by (simp add: invariant_reachable)
  from inv show "deliveries s w \<le> 1"
    unfolding deliveries_count by (rule invariant_at_most_one)
  from inv assms(3) show "deliveries s w = 1 \<or>
      (\<exists>due rid. (due, rid, w) \<in> set (timers s) \<and> Map_get (pendingRequests s) rid = Some w)"
    unfolding deliveries_count by (rule invariant_resolved_or_waiting)
  show "deliveries (run uuidv4 (expire s @ es') s) w = 1"
  proof -
    let ?x = "run uuidv4 (expire s) s"
    from assms(1) inv have ix: "invariant uuidv4 ?x" by (rule invariant_run)
    from assms(3) promises_run [of s uuidv4 "expire s"] have "w < promises ?x" by simp
    with ix have "count_for w (resolved ?x) = 1 \<or>
        (\<exists>due rid. (due, rid, w) \<in> set (timers ?x) \<and> Map_get (pendingRequests ?x) rid = Some w)"
      by (rule invariant_resolved_or_waiting)
    then have one: "count_for w (resolved ?x) = 1" by (simp add: timers_expire)
    from assms(1) ix have "invariant uuidv4 (run uuidv4 es' ?x)" by (rule invariant_run)
    then have "count_for w (resolved (run uuidv4 es' ?x)) \<le> 1" by (rule invariant_at_most_one)
    moreover have "count_for w (resolved ?x) \<le> count_for w (resolved (run uuidv4 es' ?x))"
      by (rule count_for_run)
    ultimately have "count_for w (resolved (run uuidv4 es' ?x)) = 1" using one by simp
    then show ?thesis by (simp add: deliveries_count run_append)
  qed
  {
    fix v assume "(w, v) \<in> set (resolved s)"
    then have "(w, v) \<in> set (resolved (run uuidv4 es constructor))" by (simp add: assms(2))
    then have "(w, v) \<in> set (resolved constructor) \<or> v \<in> {not_connected, send_failed, request_timeout, disconnected}
        \<or> (\<exists>ws. Message ws (Some v) \<in> set es)"
      by (rule origin_run)
    then show "v \<in> {not_connected, send_failed, request_timeout, disconnected}
        \<or> (\<exists>ws. Message ws (Some v) \<in> set es)"
      by (simp add: constructor_def)
  }
qed

theorem exactly_one_result_witness:
  "inj sample_uuid
   \<and> promises (run sample_uuid [Connection 1, Execute read_x False, Execute click_y False] constructor) = 2
   \<and> deliveries (run sample_uuid [Connection 1, Execute read_x False, Execute click_y False] constructor) 0 = 0
   \<and> expire (run sample_uuid [Connection 1, Execute read_x False, Execute click_y False] constructor)
      = [Tick 30000, Timeout 0, Timeout 0]
   \<and> deliveries (run sample_uuid
        ([Connection 1, Execute read_x False, Execute click_y False] @ [Tick 30000, Timeout 0, Timeout 0]
          @ [Message 1 (Some (JObj [(''id'', JStr ''u'')])), Close 1]) constructor) 0 = 1
   \<and> resolved (run sample_uuid
        ([Connection 1, Execute read_x False, Execute click_y False] @ [Tick 30000, Timeout 0, Timeout 0]
          @ [Message 1 (Some (JObj [(''id'', JStr ''u'')])), Close 1]) constructor)
      = [(0, request_timeout), (1, request_timeout)]"
  using inj_sample_uuid
    exactly_one_result [where es = "[Connection 1, Execute read_x False, Execute click_y False]"
      and w = 0 and es' = "[Message 1 (Some (JObj [(''id'', JStr ''u'')])), Close 1]",
      OF inj_sample_uuid refl]
  by (simp add: run_defs deliveries_def expire_def)

subsection \<open>C2: identifiers, matching by identifier\<close>

text \<open>
  Claim C2 says that two submissions always get distinct identifiers, unique for the life
  of the process. \<open>executeCommand\<close> takes the identifier from \<open>uuidv4()\<close> and compares it with
  nothing. With a generator that returns \<open>u\<close> twice, both requests are sent with \<open>id\<close> \<open>u\<close>,
  the second \<open>set\<close> replaces the first entry of the table, and the reply to the first
  request resolves the promise of the second.
\<close>

theorem counterexample_repeated_uuid:
  "constant_uuid 0 = constant_uuid 1
   \<and> pendingRequests (run constant_uuid [Connection 1, Execute read_x False] constructor) = [(''u'', 0)]
   \<and> pendingRequests (run constant_uuid [Connection 1, Execute read_x False, Execute click_y False] constructor)
      = [(''u'', 1)]
   \<and> sent (run constant_uuid [Connection 1, Execute read_x False, Execute click_y False] constructor)
      = [(1, TObj [(''id'', TStr ''u''), (''action'', TStr ''read''), (''selector'', TStr ''#x'')]),
         (1, TObj [(''id'', TStr ''u''), (''action'', TStr ''click''), (''selector'', TStr ''#y'')])]
   \<and> resolved (run constant_uuid
        [Connection 1, Execute read_x False, Execute click_y False, Message 1 (Some hello_reply)] constructor)
      = [(1, hello_reply)]"
  by (simp add: run_defs)

text \<open>
  Claim C2, amended. Each submission made while a socket is connected is registered under
  the value of one new call of \<open>uuidv4\<close>: the first under \<open>a\<close>, the second, after any events,
  under \<open>b\<close>, from a later call. The relay checks nothing, so \<open>a\<close> and \<open>b\<close> differ when the
  generator does not repeat a value (\<open>inj uuidv4\<close>). In any state, a reply whose \<open>id\<close> is \<open>r\<close>
  calls the \<open>resolve\<close> stored under \<open>r\<close> with the reply, removes \<open>r\<close>, and leaves every other
  entry of the table as it was. When \<open>a\<close> and \<open>b\<close> differ and the reply for \<open>b\<close> arrives
  before the reply for \<open>a\<close>, the second promise gets the reply for \<open>b\<close> and the first
  promise the reply for \<open>a\<close>.
\<close>

theorem identifiers_from_uuidv4_and_matching:
  assumes "extensionSocket s = Some ws" and "s1 = executeCommand uuidv4 c1 False s"
    and "s2 = run uuidv4 es s1"
    and "extensionSocket s2 = Some ws'" and "s3 = executeCommand uuidv4 c2 False s2"
    and "a = uuidv4 (uuid_calls s)" and "b = uuidv4 (uuid_calls s2)"
  shows "Map_get (pendingRequests s1) a = Some (promises s)
    \<and> Map_get (pendingRequests s3) b = Some (promises s2)
    \<and> uuid_calls s < uuid_calls s2
    \<and> (inj uuidv4 \<longrightarrow> a \<noteq> b)
    \<and> (get_prop m ''id'' = Some (JStr r) \<and> Map_get (pendingRequests t) r = Some w \<longrightarrow>
          resolved (on_message (Some m) t) = resolved t @ [(w, m)]
        \<and> Map_get (pendingRequests (on_message (Some m) t)) r = None
        \<and> (\<forall>r'. r' \<noteq> r \<longrightarrow>
              Map_get (pendingRequests (on_message (Some m) t)) r' = Map_get (pendingRequests t) r'))
    \<and> (es = [] \<and> a \<noteq> b \<and> get_prop ma ''id'' = Some (JStr a) \<and> get_prop mb ''id'' = Some (JStr b) \<longrightarrow>
          resolved (run uuidv4 [Message ws (Some mb), Message ws (Some ma)] s3)
            = resolved s @ [(promises s + 1, mb), (promises s, ma)])"
proof (intro conjI impI)
  have s1: "s1 = s\<lparr>promises := promises s + 1, uuid_calls := uuid_calls s + 1,
       pendingRequests := Map_set a (promises s) (pendingRequests s),
       timers := timers s @ [(clock s + 30000, a, promises s)],
       sent := sent s @ [(ws, JSON_stringify (message_literal a c1))]\<rparr>"
    by (simp add: assms(2,6) executeCommand_sent [OF assms(1)])
  have s3: "s3 = s2\<lparr>promises := promises s2 + 1, uuid_calls := uuid_calls s2 + 1,
       pendingRequests := Map_set b (promises s2) (pendingRequests s2),
       timers := timers s2 @ [(clock s2 + 30000, b, promises s2)],
       sent := sent s2 @ [(ws', JSON_stringify (message_literal b c2))]\<rparr>"
    by (simp add: assms(5,7) executeCommand_sent [OF assms(4)])
  show "Map_get (pendingRequests s1) a = Some (promises s)"
    by (simp add: s1 Map_get_Map_set)
  show "Map_get (pendingRequests s3) b = Some (promises s2)"
    by (simp add: s3 Map_get_Map_set)
  have "uuid_calls s1 \<le> uuid_calls s2"
    unfolding assms(3) by (rule uuid_calls_run)
  then show calls: "uuid_calls s < uuid_calls s2" by (simp add: s1)
  {
    assume "inj uuidv4"
    with calls show "a \<noteq> b"
      by (auto simp: assms(6,7) dest: injD)
  }
  {
    assume h: "get_prop m ''id'' = Some (JStr r) \<and> Map_get (pendingRequests t) r = Some w"
    then have e: "on_message (Some m) t = resolve w m (t\<lparr>pendingRequests := Map_delete r (pendingRequests t)\<rparr>)"
      by (simp add: on_message_match)
    show "resolved (on_message (Some m) t) = resolved t @ [(w, m)]"
      "Map_get (pendingRequests (on_message (Some m) t)) r = None"
      "\<forall>r'. r' \<noteq> r \<longrightarrow> Map_get (pendingRequests (on_message (Some m) t)) r' = Map_get (pendingRequests t) r'"
      by (simp_all add: e resolve_fields Map_get_Map_delete)
  }
  {
    assume h: "es = [] \<and> a \<noteq> b \<and> get_prop ma ''id'' = Some (JStr a) \<and> get_prop mb ''id'' = Some (JStr b)"
    then have ab: "a \<noteq> b" by simp
    from h assms(3) have s2: "s2 = s1" by simp
    have gb: "Map_get (pendingRequests s3) b = Some (promises s + 1)"
      by (simp add: s3 Map_get_Map_set s2 s1)
    let ?t = "resolve (promises s + 1) mb (s3\<lparr>pendingRequests := Map_delete b (pendingRequests s3)\<rparr>)"
    from h gb have e1: "on_message (Some mb) s3 = ?t"
      by (simp add: on_message_match)
    from ab have ga: "Map_get (pendingRequests ?t) a = Some (promises s)"
      by (simp add: resolve_fields Map_get_Map_delete s3 Map_get_Map_set s2 s1)
    from h ga have e2: "on_message (Some ma) ?t =
        resolve (promises s) ma (?t\<lparr>pendingRequests := Map_delete a (pendingRequests ?t)\<rparr>)"
      by (simp add: on_message_match)
    have "run uuidv4 [Message ws (Some mb), Message ws (Some ma)] s3
        = on_message (Some ma) (on_message (Some mb) s3)"
      by simp
    also have "\<dots> = resolve (promises s) ma (?t\<lparr>pendingRequests := Map_delete a (pendingRequests ?t)\<rparr>)"
      by (simp only: e1 e2)
    finally have "resolved (run uuidv4 [Message ws (Some mb), Message ws (Some ma)] s3)
        = resolved s3 @ [(promises s + 1, mb), (promises s, ma)]"
      by (simp add: resolve_fields)
    moreover have "resolved s3 = resolved s"
      by (simp add: s3 s2 s1)
    ultimately show "resolved (run uuidv4 [Message ws (Some mb), Message ws (Some ma)] s3)
            = resolved s @ [(promises s + 1, mb), (promises s, ma)]"
      by simp
  }
qed

theorem identifiers_from_uuidv4_and_matching_witness:
  "inj sample_uuid
   \<and> pendingRequests (run sample_uuid [Connection 1, Execute read_x False, Execute click_y False] constructor)
      = [(''u'', 0), (''uu'', 1)]
   \<and> uuid_calls (run sample_uuid [Connection 1] constructor)
      < uuid_calls (run sample_uuid [Connection 1, Execute read_x False] constructor)
   \<and> ''u'' \<noteq> ''uu''
   \<and> resolved (run sample_uuid
        [Connection 1, Execute read_x False, Execute click_y False,
         Message 1 (Some (JObj [(''id'', JStr ''uu''), (''success'', JBool True)])),
         Message 1 (Some (JObj [(''id'', JStr ''u''), (''success'', JBool False), (''error'', JStr ''Element not found: #x'')]))]
        constructor)
      = [(1, JObj [(''id'', JStr ''uu''), (''success'', JBool True)]),
         (0, JObj [(''id'', JStr ''u''), (''success'', JBool False), (''error'', JStr ''Element not found: #x'')])]"
  using inj_sample_uuid
    identifiers_from_uuidv4_and_matching [where s = "run sample_uuid [Connection 1] constructor"
      and ?uuidv4.0 = sample_uuid
      and ws = 1 and ws' = 1 and ?c1.0 = read_x and ?c2.0 = click_y and es = "[]"
      and ma = "JObj [(''id'', JStr ''u''), (''success'', JBool False), (''error'', JStr ''Element not found: #x'')]"
      and mb = "JObj [(''id'', JStr ''uu''), (''success'', JBool True)]"
      and m = "JObj [(''id'', JStr ''uu''), (''success'', JBool True)]" and r = "''uu''" and w = 1
      and t = "run sample_uuid [Connection 1, Execute read_x False, Execute click_y False] constructor",
      OF _ refl refl _ refl refl refl]
  by (simp add: run_defs)

subsection \<open>C3: a resolved identifier is ignored\<close>

text \<open>
  Claim C3. Resolution is idempotent-safe. In every reachable state, a reply whose \<open>id\<close> is
  not in the table is ignored: \<open>handleExtensionMessage\<close> returns without an exception and
  the whole state (the table, every promise, the console) is unchanged; a timer callback
  whose \<open>id\<close> is not in the table changes nothing either. An identifier is out of the
  table once its request is resolved: a waiting timer whose promise already has its
  result finds its \<open>id\<close> absent, and an identifier that \<open>uuidv4\<close> has returned and that has
  left the table never comes back, whatever happens next.
\<close>

theorem resolved_identifier_is_ignored:
  assumes "inj uuidv4" and "s = run uuidv4 es constructor"
  shows "(get_prop message ''id'' = Some (JStr rid) \<and> \<not> Map_has (pendingRequests s) rid \<longrightarrow>
            handleExtensionMessage message s = Inr s \<and> on_message (Some message) s = s)
    \<and> (\<not> Map_has (pendingRequests s) rid \<longrightarrow> timeout_callback rid w s = s)
    \<and> ((due, rid, w) \<in> set (timers s) \<and> 1 \<le> deliveries s w \<longrightarrow> \<not> Map_has (pendingRequests s) rid)
    \<and> (k < uuid_calls s \<and> \<not> Map_has (pendingRequests s) (uuidv4 k) \<longrightarrow>
          \<not> Map_has (pendingRequests (run uuidv4 es' s)) (uuidv4 k))"
proof (intro conjI impI)
  from assms have inv: "invariant uuidv4 s" by (simp add: invariant_reachable)
  {
    assume a: "get_prop message ''id'' = Some (JStr rid) \<and> \<not> Map_has (pendingRequests s) rid"
    then have "message \<noteq> JNull" by auto
    with a show h: "handleExtensionMessage message s = Inr s"
      by (simp add: handleExtensionMessage_def destructure_id_def Map_has_def Map_get_def)
    then show "on_message (Some message) s = s" by (simp add: on_message_def)
  }
  {
    assume "\<not> Map_has (pendingRequests s) rid"
    then show "timeout_callback rid w s = s" by (simp add: timeout_callback_def)
  }
  {
    assume a: "(due, rid, w) \<in> set (timers s) \<and> 1 \<le> deliveries s w"
    show "\<not> Map_has (pendingRequests s) rid"
    proof
      assume "Map_has (pendingRequests s) rid"
      then obtain w' where p: "(rid, w') \<in> set (pendingRequests s)" by (auto simp: Map_has_iff)
      with inv a have "w' = w" by (auto simp: invariant_def timers_ok_def)
      with inv p have "count_for w (resolved s) = 0" by (auto simp: invariant_def table_ok_def)
      with a show False by (simp add: deliveries_count)
    qed
  }
  {
    assume "k < uuid_calls s \<and> \<not> Map_has (pendingRequests s) (uuidv4 k)"
    then show "\<not> Map_has (pendingRequests (run uuidv4 es' s)) (uuidv4 k)"
      using removed_key_run [OF assms(1), of k s es'] by (simp add: Map_has_iff)
  }
qed

theorem resolved_identifier_is_ignored_witness:
  "on_message (Some (JObj [(''id'', JStr ''u''), (''success'', JBool True)]))
      (run sample_uuid [Connection 1, Execute read_x False, Execute click_y False, Tick 30000, Timeout 0] constructor)
    = run sample_uuid [Connection 1, Execute read_x False, Execute click_y False, Tick 30000, Timeout 0] constructor
   \<and> pendingRequests (run sample_uuid
        [Connection 1, Execute read_x False, Execute click_y False, Tick 30000, Timeout 0] constructor) = [(''uu'', 1)]
   \<and> resolved (run sample_uuid
        [Connection 1, Execute read_x False, Execute click_y False, Tick 30000, Timeout 0] constructor)
      = [(0, request_timeout)]
   \<and> timeout_callback ''u'' 0 (run sample_uuid
        [Connection 1, Execute read_x False, Execute click_y False, Message 1 (Some (JObj [(''id'', JStr ''u'')]))] constructor)
    = run sample_uuid
        [Connection 1, Execute read_x False, Execute click_y False, Message 1 (Some (JObj [(''id'', JStr ''u'')]))] constructor
   \<and> deliveries (run sample_uuid
        [Connection 1, Execute read_x False, Execute click_y False, Message 1 (Some (JObj [(''id'', JStr ''u'')]))] constructor) 0 = 1
   \<and> \<not> Map_has (pendingRequests (run sample_uuid [Execute click_y False]
        (run sample_uuid [Connection 1, Execute read_x False,  Message 1 (Some (JObj [(''id'', JStr ''u'')]))] constructor))) ''u''"
  using resolved_identifier_is_ignored [where es = "[Connection 1, Execute read_x False, Execute click_y False, Tick 30000, Timeout 0]"
      and message = "JObj [(''id'', JStr ''u''), (''success'', JBool True)]" and rid = "''u''" and k = 0,
      OF inj_sample_uuid refl]
    resolved_identifier_is_ignored [where es = "[Connection 1, Execute read_x False, Execute click_y False, Message 1 (Some (JObj [(''id'', JStr ''u'')]))]"
      and rid = "''u''" and w = 0 and due = 30000 and k = 0,
      OF inj_sample_uuid refl]
    resolved_identifier_is_ignored [where es = "[Connection 1, Execute read_x False,  Message 1 (Some (JObj [(''id'', JStr ''u'')]))]"
      and k = 0 and es' = "[Execute click_y False]",
      OF inj_sample_uuid refl]
  by (simp add: run_defs deliveries_def)

subsection \<open>C4: a disconnect drains the table\<close>

text \<open>
  Claim C4. When a socket closes, every request registered at that moment is resolved with
  \<open>{success: false, error: 'Extension disconnected'}\<close> and removed: in every reachable
  state, the close handler calls the \<open>resolve\<close> of each entry once with that value, in
  the order of the Map, each of these promises then holds that value as its one result,
  and the table is empty and \<open>extensionSocket\<close> is \<open>null\<close> afterwards.
\<close>

theorem close_drains_pending:
  assumes "inj uuidv4" and "s = run uuidv4 es constructor" and "s' = step uuidv4 (Close ws) s"
  shows "extensionSocket s' = None \<and> pendingRequests s' = []
    \<and> resolved s' = resolved s @ map (\<lambda>(rid, w). (w, disconnected)) (pendingRequests s)
    \<and> (\<forall>w \<in> snd ` set (pendingRequests s). settled s' w = Some disconnected \<and> deliveries s' w = 1)
    \<and> get_prop disconnected ''success'' = Some (JBool False)
    \<and> get_prop disconnected ''error'' = Some (JStr ''Extension disconnected'')"
proof -
  from assms(1,2) have inv: "invariant uuidv4 s" by (simp add: invariant_reachable)
  have s': "s' = on_close s" by (simp add: assms(3))
  have each: "settled s' w = Some disconnected \<and> deliveries s' w = 1" if "w \<in> snd ` set (pendingRequests s)" for w
  proof -
    from that obtain rid where m: "(rid, w) \<in> set (pendingRequests s)" by auto
    with inv have z: "count_for w (resolved s) = 0" and d: "distinct (map snd (pendingRequests s))"
      by (auto simp: invariant_def table_ok_def)
    from z have "settled s' w = map_of (map (\<lambda>(rid, w). (w, disconnected)) (pendingRequests s)) w"
      unfolding settled_def s' on_close_fields by (rule settled_fresh)
    also from that have "\<dots> = Some disconnected" by (rule map_of_drain)
    finally have "settled s' w = Some disconnected" .
    moreover from d that have "count_for w (map (\<lambda>(rid, w). (w, disconnected)) (pendingRequests s)) = 1"
      by (rule count_for_drain_present)
    with z have "deliveries s' w = 1"
      by (simp add: deliveries_count s' on_close_fields count_for_append)
    ultimately show ?thesis by simp
  qed
  have "get_prop disconnected ''success'' = Some (JBool False)"
    "get_prop disconnected ''error'' = Some (JStr ''Extension disconnected'')"
    by (simp_all add: disconnected_def failure_def)
  with each show ?thesis by (simp add: s' on_close_fields)
qed

theorem close_drains_pending_witness:
  "resolved (step sample_uuid (Close 1)
      (run sample_uuid [Connection 1, Execute read_x False, Execute click_y False] constructor))
     = [(0, disconnected), (1, disconnected)]
   \<and> pendingRequests (step sample_uuid (Close 1)
      (run sample_uuid [Connection 1, Execute read_x False, Execute click_y False] constructor)) = []
   \<and> settled (step sample_uuid (Close 1)
      (run sample_uuid [Connection 1, Execute read_x False, Execute click_y False] constructor)) 0
     = Some disconnected
   \<and> settled (step sample_uuid (Close 1)
      (run sample_uuid [Connection 1, Execute read_x False, Execute click_y False] constructor)) 1
     = Some disconnected"
  using close_drains_pending [where es = "[Connection 1, Execute read_x False, Execute click_y False]"
      and ws = 1, OF inj_sample_uuid refl refl]
  by (simp add: run_defs settled_def)

subsection \<open>C5: immediate failures\<close>

text \<open>
  Claim C5. An immediate failure of a submission leaves no entry in the table. In every
  reachable state: when \<open>extensionSocket\<close> is \<open>null\<close>, the caller's promise is resolved at
  once with \<open>'Extension not connected'\<close>, \<open>uuidv4\<close> is not called, and the table, its size
  as \<open>GET /status\<close> reports it, the timers and the sent messages are unchanged; when a socket is there and \<open>send\<close> throws,
  the promise is resolved at once with \<open>'Failed to send to extension'\<close>, the entry that
  was just registered is deleted, so the table is what it was, and nothing was sent.
\<close>

theorem immediate_failure_leaves_no_entry:
  assumes "inj uuidv4" and "s = run uuidv4 es constructor"
  shows "(extensionSocket s = None \<longrightarrow>
            pendingRequests (executeCommand uuidv4 command t s) = pendingRequests s
          \<and> status_pendingRequests (executeCommand uuidv4 command t s) = status_pendingRequests s
          \<and> uuid_calls (executeCommand uuidv4 command t s) = uuid_calls s
          \<and> timers (executeCommand uuidv4 command t s) = timers s
          \<and> sent (executeCommand uuidv4 command t s) = sent s
          \<and> resolved (executeCommand uuidv4 command t s) = resolved s @ [(promises s, not_connected)]
          \<and> settled (executeCommand uuidv4 command t s) (promises s) = Some not_connected)
    \<and> (extensionSocket s \<noteq> None \<longrightarrow>
            pendingRequests (executeCommand uuidv4 command True s) = pendingRequests s
          \<and> \<not> Map_has (pendingRequests (executeCommand uuidv4 command True s)) (uuidv4 (uuid_calls s))
          \<and> sent (executeCommand uuidv4 command True s) = sent s
          \<and> resolved (executeCommand uuidv4 command True s) = resolved s @ [(promises s, send_failed)]
          \<and> settled (executeCommand uuidv4 command True s) (promises s) = Some send_failed)"
proof (intro conjI impI)
  from assms have inv: "invariant uuidv4 s" by (simp add: invariant_reachable)
  note new = settled_new [OF inv]
  {
    assume a: "extensionSocket s = None"
    note e = executeCommand_absent [OF a, of uuidv4 command t]
    show "pendingRequests (executeCommand uuidv4 command t s) = pendingRequests s"
      "status_pendingRequests (executeCommand uuidv4 command t s) = status_pendingRequests s"
      "uuid_calls (executeCommand uuidv4 command t s) = uuid_calls s"
      "timers (executeCommand uuidv4 command t s) = timers s"
      "sent (executeCommand uuidv4 command t s) = sent s"
      "resolved (executeCommand uuidv4 command t s) = resolved s @ [(promises s, not_connected)]"
      by (simp_all add: e status_pendingRequests_def)
    show "settled (executeCommand uuidv4 command t s) (promises s) = Some not_connected"
      unfolding settled_def e using new by simp
  }
  {
    assume "extensionSocket s \<noteq> None"
    then obtain ws where a: "extensionSocket s = Some ws" by auto
    note e = executeCommand_throws [OF a, of uuidv4 command]
    have nk: "uuidv4 (uuid_calls s) \<notin> fst ` set (pendingRequests s)"
      using assms(1) inv by (rule invariant_fresh)
    then have p: "Map_delete (uuidv4 (uuid_calls s)) (Map_set (uuidv4 (uuid_calls s)) (promises s) (pendingRequests s))
        = pendingRequests s"
      by (simp add: Map_set_fresh Map_delete_append_fresh)
    show "pendingRequests (executeCommand uuidv4 command True s) = pendingRequests s"
      by (simp add: e p)
    with nk show "\<not> Map_has (pendingRequests (executeCommand uuidv4 command True s)) (uuidv4 (uuid_calls s))"
      by (simp add: Map_has_iff)
    show "sent (executeCommand uuidv4 command True s) = sent s"
      "resolved (executeCommand uuidv4 command True s) = resolved s @ [(promises s, send_failed)]"
      by (simp_all add: e)
    show "settled (executeCommand uuidv4 command True s) (promises s) = Some send_failed"
      unfolding settled_def e using new by simp
  }
qed

theorem immediate_failure_leaves_no_entry_witness:
  "pendingRequests (executeCommand sample_uuid read_x False constructor) = []
   \<and> uuid_calls (executeCommand sample_uuid read_x False constructor) = 0
   \<and> settled (executeCommand sample_uuid read_x False constructor) 0 = Some not_connected
   \<and> pendingRequests (run sample_uuid [Connection 1, Execute read_x False] constructor) = [(''u'', 0)]
   \<and> pendingRequests (executeCommand sample_uuid click_y True
        (run sample_uuid [Connection 1, Execute read_x False] constructor)) = [(''u'', 0)]
   \<and> settled (executeCommand sample_uuid click_y True
        (run sample_uuid [Connection 1, Execute read_x False] constructor)) 1 = Some send_failed"
  using immediate_failure_leaves_no_entry [where es = "[]" and command = read_x and t = False,
      OF inj_sample_uuid refl]
    immediate_failure_leaves_no_entry [where es = "[Connection 1, Execute read_x False]"
      and command = click_y, OF inj_sample_uuid refl]
  by (simp add: run_defs settled_def)

subsection \<open>C6: the deadline\<close>

text \<open>
  Claim C6 says that the deadline is the submission time plus the timeout that the request
  asks for. The code passes the constant 30000 to \<open>setTimeout\<close> and never reads a field
  \<open>timeout\<close>: a request that asks for 5000 ms, submitted at time 0, gets a timer due at
  30000, and at time 5000 it is neither resolved nor removed from the table.
\<close>

theorem counterexample_requested_timeout:
  "spec_deadline (run sample_uuid [Connection 1] constructor) read_x_5s = 5000
   \<and> timers (run sample_uuid [Connection 1, Execute read_x_5s False] constructor) = [(30000, ''u'', 0)]
   \<and> resolved (run sample_uuid [Connection 1, Execute read_x_5s False, Tick 5000, Timeout 0] constructor) = []
   \<and> pendingRequests (run sample_uuid [Connection 1, Execute read_x_5s False, Tick 5000, Timeout 0] constructor)
      = [(''u'', 0)]"
  by (simp add: run_defs spec_deadline_def spec_timeout_def)

text \<open>
  Claim C6, amended. For every request submitted while a socket is connected, whatever its
  fields, the timer is due 30000 ms after the submission. A reply with the request's \<open>id\<close>
  that arrives before that (the timer cannot run yet) resolves the promise with the reply,
  removes the entry, and the timer changes nothing when it runs later. When no reply
  arrives, the timer, run at or after the due time, resolves the promise with
  \<open>'Request timeout'\<close> and removes the entry from the table.
\<close>

theorem deadline_is_thirty_seconds:
  assumes "extensionSocket s = Some ws" and "s1 = executeCommand uuidv4 command False s"
    and "rid = uuidv4 (uuid_calls s)" and "i = length (timers s)"
  shows "timers s1 = timers s @ [(clock s + 30000, rid, promises s)]
    \<and> (d < 30000 \<and> get_prop m ''id'' = Some (JStr rid) \<longrightarrow>
          resolved (run uuidv4 [Tick d, Timeout i, Message ws (Some m)] s1) = resolved s @ [(promises s, m)]
        \<and> \<not> Map_has (pendingRequests (run uuidv4 [Tick d, Timeout i, Message ws (Some m)] s1)) rid
        \<and> resolved (run uuidv4 [Tick d, Timeout i, Message ws (Some m), Tick 30000, Timeout i] s1)
            = resolved s @ [(promises s, m)])
    \<and> (30000 \<le> d \<longrightarrow>
          resolved (run uuidv4 [Tick d, Timeout i] s1) = resolved s @ [(promises s, request_timeout)]
        \<and> \<not> Map_has (pendingRequests (run uuidv4 [Tick d, Timeout i] s1)) rid)"
proof (intro conjI impI)
  let ?p = "promises s"
  have s1: "s1 = s\<lparr>promises := ?p + 1, uuid_calls := uuid_calls s + 1,
       pendingRequests := Map_set rid ?p (pendingRequests s),
       timers := timers s @ [(clock s + 30000, rid, ?p)],
       sent := sent s @ [(ws, JSON_stringify (message_literal rid command))]\<rparr>"
    by (simp add: assms(2,3) executeCommand_sent [OF assms(1)])
  show "timers s1 = timers s @ [(clock s + 30000, rid, promises s)]"
    by (simp add: s1)
  let ?t = "s1\<lparr>clock := clock s1 + d\<rparr>"
  have len: "i < length (timers ?t)" and nth: "timers ?t ! i = (clock s + 30000, rid, ?p)"
    by (simp_all add: s1 assms(4))
  {
    assume h: "d < 30000 \<and> get_prop m ''id'' = Some (JStr rid)"
    have "clock ?t = clock s + d" by (simp add: s1)
    with h have "clock ?t < fst (timers ?t ! i)" unfolding nth by simp
    with len have early: "run_timer i ?t = ?t" by (rule run_timer_early)
    have "Map_get (pendingRequests ?t) rid = Some ?p" by (simp add: s1 Map_get_Map_set)
    with h have msg: "on_message (Some m) ?t =
        resolve ?p m (?t\<lparr>pendingRequests := Map_delete rid (pendingRequests ?t)\<rparr>)"
      by (simp add: on_message_match)
    let ?u = "resolve ?p m (?t\<lparr>pendingRequests := Map_delete rid (pendingRequests ?t)\<rparr>)"
    have r: "run uuidv4 [Tick d, Timeout i, Message ws (Some m)] s1 = ?u"
      by (simp only: run.simps step.simps early msg)
    show "resolved (run uuidv4 [Tick d, Timeout i, Message ws (Some m)] s1) = resolved s @ [(promises s, m)]"
      unfolding r by (simp add: resolve_fields s1)
    show "\<not> Map_has (pendingRequests (run uuidv4 [Tick d, Timeout i, Message ws (Some m)] s1)) rid"
      unfolding r by (simp add: resolve_fields Map_has_Map_delete)
    let ?v = "?u\<lparr>clock := clock ?u + 30000\<rparr>"
    have "i < length (timers ?v)" "timers ?v ! i = (clock s + 30000, rid, ?p)"
      "clock s + 30000 \<le> clock ?v"
      by (simp_all add: resolve_fields s1 assms(4))
    then have "run_timer i ?v = timeout_callback rid ?p (?v\<lparr>timers := dequeue i (timers ?v)\<rparr>)"
      by (rule run_timer_due)
    also have "\<dots> = ?v\<lparr>timers := dequeue i (timers ?v)\<rparr>"
      by (simp add: timeout_callback_def resolve_fields Map_has_Map_delete)
    finally have late: "run_timer i ?v = ?v\<lparr>timers := dequeue i (timers ?v)\<rparr>" .
    have r': "run uuidv4 [Tick d, Timeout i, Message ws (Some m), Tick 30000, Timeout i] s1 = run_timer i ?v"
      by (simp only: run.simps step.simps early msg)
    show "resolved (run uuidv4 [Tick d, Timeout i, Message ws (Some m), Tick 30000, Timeout i] s1)
        = resolved s @ [(promises s, m)]"
      unfolding r' late by (simp add: resolve_fields s1)
  }
  {
    assume h: "30000 \<le> d"
    then have "clock s + 30000 \<le> clock ?t" by (simp add: s1)
    with len nth have "run_timer i ?t = timeout_callback rid ?p (?t\<lparr>timers := dequeue i (timers ?t)\<rparr>)"
      by (rule run_timer_due)
    also have "\<dots> = resolve ?p request_timeout
        (?t\<lparr>timers := dequeue i (timers ?t), pendingRequests := Map_delete rid (pendingRequests ?t)\<rparr>)"
      by (simp add: timeout_callback_def s1 Map_has_Map_set)
    finally have r: "run uuidv4 [Tick d, Timeout i] s1 = resolve ?p request_timeout
        (?t\<lparr>timers := dequeue i (timers ?t), pendingRequests := Map_delete rid (pendingRequests ?t)\<rparr>)"
      by (simp only: run.simps step.simps)
    show "resolved (run uuidv4 [Tick d, Timeout i] s1) = resolved s @ [(promises s, request_timeout)]"
      unfolding r by (simp add: resolve_fields s1)
    show "\<not> Map_has (pendingRequests (run uuidv4 [Tick d, Timeout i] s1)) rid"
      unfolding r by (simp add: resolve_fields Map_has_Map_delete)
  }
qed

theorem deadline_is_thirty_seconds_witness:
  "timers (run sample_uuid [Connection 1, Execute read_x_5s False] constructor) = [(30000, ''u'', 0)]
   \<and> resolved (run sample_uuid
        [Connection 1, Execute read_x_5s False, Tick 29999, Timeout 0, Message 1 (Some hello_reply)] constructor)
      = [(0, hello_reply)]
   \<and> resolved (run sample_uuid
        [Connection 1, Execute read_x_5s False, Tick 29999, Timeout 0, Message 1 (Some hello_reply),
         Tick 30000, Timeout 0] constructor)
      = [(0, hello_reply)]
   \<and> resolved (run sample_uuid [Connection 1, Execute read_x_5s False, Tick 30000, Timeout 0] constructor)
      = [(0, request_timeout)]
   \<and> pendingRequests (run sample_uuid [Connection 1, Execute read_x_5s False, Tick 30000, Timeout 0] constructor)
      = []"
  using deadline_is_thirty_seconds [where s = "run sample_uuid [Connection 1] constructor" and ws = 1
      and ?uuidv4.0 = sample_uuid and command = read_x_5s and d = 29999 and m = hello_reply,
      OF _ refl refl refl]
    deadline_is_thirty_seconds [where s = "run sample_uuid [Connection 1] constructor" and ws = 1
      and ?uuidv4.0 = sample_uuid and command = read_x_5s and d = 30000,
      OF _ refl refl refl]
  by (simp add: run_defs)

subsection \<open>C7: what the caller receives\<close>




subsection \<open>C8: the identifier in the outbound message\<close>

text \<open>
  Claim C8: the message sent to the executor carries the identifier under which the
  request is registered, also when the command has a field \<open>id\<close> of its own. The literal
  \<open>{ id, ...command }\<close> writes \<open>id\<close> first and the spread after it, so an \<open>id\<close> of the command
  replaces the fresh one (see \<open>get_prop_message_literal\<close>). Evaluated on the command
  \<open>{id: 'mine', action: 'read', selector: '#x'}\<close>: the message sent has \<open>id\<close> \<open>'mine'\<close> while
  the table holds the request under \<open>'u'\<close>; the executor's reply, which echoes \<open>'mine'\<close>,
  finds no entry, and the request ends with \<open>'Request timeout'\<close>.
\<close>

theorem own_id_replaces_injected_id:
  "sent (run sample_uuid [Connection 1, Execute read_x_mine False] constructor)
      = [(1, TObj [(''id'', TStr ''mine''), (''action'', TStr ''read''), (''selector'', TStr ''#x'')])]
   \<and> pendingRequests (run sample_uuid [Connection 1, Execute read_x_mine False] constructor) = [(''u'', 0)]
   \<and> resolved (run sample_uuid
        [Connection 1, Execute read_x_mine False,
         Message 1 (Some (JObj [(''id'', JStr ''mine''), (''success'', JBool True), (''data'', JStr ''hello'')]))]
        constructor) = []
   \<and> resolved (run sample_uuid
        [Connection 1, Execute read_x_mine False,
         Message 1 (Some (JObj [(''id'', JStr ''mine''), (''success'', JBool True), (''data'', JStr ''hello'')])),
         Tick 30000, Timeout 0]
        constructor) = [(0, request_timeout)]"
  by (simp add: run_defs)

subsection \<open>C9: a second connection\<close>

text \<open>
  Claim C9: one policy for a second peer, applied consistently; the close of a replaced
  peer neither makes the live connection absent nor drains the requests in flight on the
  new peer. The connection handler replaces \<open>extensionSocket\<close>, but the close handler of
  any socket sets it to \<open>null\<close> and drains the table. Evaluated: socket 1 connects, socket 2
  connects, a request is sent on socket 2, socket 1 closes. The request is resolved with
  \<open>'Extension disconnected'\<close>, \<open>extensionSocket\<close> is \<open>null\<close> while socket 2 is open,
  \<open>GET /health\<close> reports \<open>extensionConnected: false\<close>, and the next request fails with
  \<open>'Extension not connected'\<close>. A message of the replaced socket 1 is still accepted as the
  reply to a request sent on socket 2.
\<close>

theorem close_of_replaced_socket_disconnects:
  "extensionSocket (run sample_uuid [Connection 1, Connection 2, Execute read_x False] constructor) = Some 2
   \<and> sent (run sample_uuid [Connection 1, Connection 2, Execute read_x False] constructor)
      = [(2, TObj [(''id'', TStr ''u''), (''action'', TStr ''read''), (''selector'', TStr ''#x'')])]
   \<and> extensionSocket (run sample_uuid [Connection 1, Connection 2, Execute read_x False, Close 1] constructor)
      = None
   \<and> \<not> extensionConnected
        (run sample_uuid [Connection 1, Connection 2, Execute read_x False, Close 1] constructor)
   \<and> resolved (run sample_uuid [Connection 1, Connection 2, Execute read_x False, Close 1] constructor)
      = [(0, disconnected)]
   \<and> resolved (run sample_uuid
        [Connection 1, Connection 2, Execute read_x False, Close 1, Execute click_y False] constructor)
      = [(0, disconnected), (1, not_connected)]
   \<and> resolved (run sample_uuid
        [Connection 1, Connection 2, Execute read_x False, Message 1 (Some hello_reply)] constructor)
      = [(0, hello_reply)]"
  by (simp add: run_defs)

subsection \<open>C10: no validation of the command\<close>

text \<open>
  Claim C10 says that a command submitted while a socket is connected is always forwarded
  with its fields unchanged and ends only by a failure that the executor reports, a
  disconnect or the timeout, never by a failure that the relay produces at once. When
  \<open>send\<close> throws, the command is not forwarded and the relay resolves the request itself,
  at submission, with \<open>'Failed to send to extension'\<close>; here for a command whose action is
  \<open>hover\<close>. When the executor answers such a command with \<open>success: true\<close>, that is the
  caller's result: the relay does not look at what the executor reports. And a field
  that the parser read as infinity (written \<open>1e309\<close> in the request) is forwarded as
  \<open>null\<close>.
\<close>

theorem counterexample_command_outcomes:
  "extensionSocket (run sample_uuid [Connection 1] constructor) = Some 1
   \<and> resolved (run sample_uuid [Connection 1, Execute hover True] constructor) = [(0, send_failed)]
   \<and> sent (run sample_uuid [Connection 1, Execute hover True] constructor) = []
   \<and> pendingRequests (run sample_uuid [Connection 1, Execute hover True] constructor) = []
   \<and> resolved (run sample_uuid [Connection 1, Execute hover False, Message 1 (Some hello_reply)] constructor)
      = [(0, hello_reply)]
   \<and> get_prop hello_reply ''success'' = Some (JBool True)
   \<and> get_prop hover_big ''n'' = Some (JNum PosInf)
   \<and> sent (run sample_uuid [Connection 1, Execute hover_big False] constructor)
      = [(1, TObj [(''id'', TStr ''u''), (''action'', TStr ''hover''), (''n'', TNull)])]"
  by (simp add: run_defs)

text \<open>
  Claim C10, amended. \<open>executeCommand\<close> never looks into the command. In every reachable
  state with a socket connected, for every command (any JSON value):
  \<^item> \<open>uuidv4\<close> is called, a promise is created and its timer is armed;
  \<^item> when \<open>send\<close> does not throw, the request is registered under the fresh identifier,
    no result is delivered at submission, and the text sent is what \<open>JSON.stringify\<close>
    writes for \<open>{ id, ...command }\<close>: it has every field of the command other than \<open>id\<close>,
    no other field but \<open>id\<close>, and, for a command without a field \<open>id\<close>, the fresh
    identifier as its \<open>id\<close>;
  \<^item> a field's value with no infinity and no negative zero in it is read back from the
    text as it was; an infinity is written \<open>null\<close> and negative zero \<open>0\<close>;
  \<^item> when \<open>send\<close> throws, the request is resolved at once with the send failure and the
    table is unchanged;
  \<^item> two commands lead to the same state but for the text sent;
  \<^item> in any state, the only events that deliver a result to a promise created earlier are
    a message of the executor, a close and a timer: never a submission.
\<close>

theorem command_is_not_validated:
  assumes "inj uuidv4" and "s = run uuidv4 es constructor" and "extensionSocket s = Some ws"
    and "rid = uuidv4 (uuid_calls s)"
  shows "uuid_calls (executeCommand uuidv4 command t s) = uuid_calls s + 1
    \<and> promises (executeCommand uuidv4 command t s) = promises s + 1
    \<and> timers (executeCommand uuidv4 command t s) = timers s @ [(clock s + 30000, rid, promises s)]
    \<and> (\<not> t \<longrightarrow>
          pendingRequests (executeCommand uuidv4 command t s) = pendingRequests s @ [(rid, promises s)]
        \<and> resolved (executeCommand uuidv4 command t s) = resolved s
        \<and> sent (executeCommand uuidv4 command t s)
            = sent s @ [(ws, JSON_stringify (message_literal rid command))])
    \<and> (\<forall>k. k \<noteq> ''id'' \<longrightarrow>
          text_prop (JSON_stringify (message_literal rid command)) k
            = map_option JSON_stringify (own_prop command k))
    \<and> (own_prop command ''id'' = None \<longrightarrow>
          text_prop (JSON_stringify (message_literal rid command)) ''id'' = Some (TStr rid))
    \<and> (command = JObj ps \<and> distinct (map fst ps) \<longrightarrow> own_prop command k = get_prop command k)
    \<and> (plain v \<longrightarrow> JSON_parse (JSON_stringify v) = v)
    \<and> (t \<longrightarrow>
          pendingRequests (executeCommand uuidv4 command t s) = pendingRequests s
        \<and> resolved (executeCommand uuidv4 command t s) = resolved s @ [(promises s, send_failed)]
        \<and> sent (executeCommand uuidv4 command t s) = sent s)
    \<and> executeCommand uuidv4 command' t s
        = (executeCommand uuidv4 command t s)\<lparr>sent := sent (executeCommand uuidv4 command' t s)\<rparr>
    \<and> (w < promises s' \<and> deliveries (step uuidv4 e s') w \<noteq> deliveries s' w \<longrightarrow>
          (\<exists>ws m. e = Message ws (Some m)) \<or> (\<exists>ws. e = Close ws) \<or> (\<exists>i. e = Timeout i))"
proof (intro conjI impI allI)
  from assms(1,2) have inv: "invariant uuidv4 s" by (simp add: invariant_reachable)
  have nk: "rid \<notin> fst ` set (pendingRequests s)"
    unfolding assms(4) using assms(1) inv by (rule invariant_fresh)
  note sent = executeCommand_sent [OF assms(3), of uuidv4]
  note throws = executeCommand_throws [OF assms(3), of uuidv4]
  show "uuid_calls (executeCommand uuidv4 command t s) = uuid_calls s + 1"
    "promises (executeCommand uuidv4 command t s) = promises s + 1"
    "timers (executeCommand uuidv4 command t s) = timers s @ [(clock s + 30000, rid, promises s)]"
    by (cases t; simp add: sent throws assms(4))+
  {
    assume "\<not> t"
    then have t: "t = False" by simp
    show "pendingRequests (executeCommand uuidv4 command t s) = pendingRequests s @ [(rid, promises s)]"
      using nk by (simp add: t sent Map_set_fresh assms(4))
    show "resolved (executeCommand uuidv4 command t s) = resolved s"
      "sent (executeCommand uuidv4 command t s) = sent s @ [(ws, JSON_stringify (message_literal rid command))]"
      by (simp_all add: t sent assms(4))
  }
  {
    fix k :: string assume "k \<noteq> ''id''"
    then show "text_prop (JSON_stringify (message_literal rid command)) k
        = map_option JSON_stringify (own_prop command k)"
      by (simp add: text_prop_message_literal split: option.splits)
  }
  {
    assume "own_prop command ''id'' = None"
    then show "text_prop (JSON_stringify (message_literal rid command)) ''id'' = Some (TStr rid)"
      by (simp add: text_prop_message_literal)
  }
  {
    assume "command = JObj ps \<and> distinct (map fst ps)"
    then show "own_prop command k = get_prop command k"
      by (simp add: own_prop_object)
  }
  {
    assume "plain v"
    then show "JSON_parse (JSON_stringify v) = v" by (rule JSON_parse_stringify)
  }
  {
    assume t: t
    show "pendingRequests (executeCommand uuidv4 command t s) = pendingRequests s"
      using nk t by (simp add: throws Map_set_fresh Map_delete_append_fresh assms(4))
    show "resolved (executeCommand uuidv4 command t s) = resolved s @ [(promises s, send_failed)]"
      "sent (executeCommand uuidv4 command t s) = sent s"
      using t by (simp_all add: throws)
  }
  show "executeCommand uuidv4 command' t s
        = (executeCommand uuidv4 command t s)\<lparr>sent := sent (executeCommand uuidv4 command' t s)\<rparr>"
    by (cases t) (simp_all add: sent throws)
  {
    assume "w < promises s' \<and> deliveries (step uuidv4 e s') w \<noteq> deliveries s' w"
    then show "(\<exists>ws m. e = Message ws (Some m)) \<or> (\<exists>ws. e = Close ws) \<or> (\<exists>i. e = Timeout i)"
      using deliveries_quiet_step [of w s' uuidv4 e] by simp
  }
qed

theorem command_is_not_validated_witness:
  "pendingRequests (executeCommand sample_uuid hover False (run sample_uuid [Connection 1] constructor))
      = [(''u'', 0)]
   \<and> resolved (executeCommand sample_uuid hover False (run sample_uuid [Connection 1] constructor)) = []
   \<and> sent (executeCommand sample_uuid hover False (run sample_uuid [Connection 1] constructor))
      = [(1, TObj [(''id'', TStr ''u''), (''action'', TStr ''hover'')])]
   \<and> text_prop (JSON_stringify (message_literal ''u'' hover)) ''action'' = Some (TStr ''hover'')
   \<and> text_prop (JSON_stringify (message_literal ''u'' hover)) ''selector'' = None
   \<and> text_prop (JSON_stringify (message_literal ''u'' hover)) ''id'' = Some (TStr ''u'')
   \<and> JSON_parse (JSON_stringify hover) = hover
   \<and> resolved (executeCommand sample_uuid hover True (run sample_uuid [Connection 1] constructor))
      = [(0, send_failed)]
   \<and> executeCommand sample_uuid read_x False (run sample_uuid [Connection 1] constructor)
      = (executeCommand sample_uuid hover False (run sample_uuid [Connection 1] constructor))
          \<lparr>sent := [(1, TObj [(''id'', TStr ''u''), (''action'', TStr ''read''), (''selector'', TStr ''#x'')])]\<rparr>
   \<and> deliveries (step sample_uuid (Timeout 0)
        (run sample_uuid [Connection 1, Execute hover False, Tick 30000] constructor)) 0 = 1
   \<and> deliveries (run sample_uuid [Connection 1, Execute hover False, Tick 30000] constructor) 0 = 0"
  using command_is_not_validated [where es = "[Connection 1]" and command = hover and t = False
      and command' = read_x and k = "''action''" and ps = "[(''action'', JStr ''hover'')]" and w = 0
      and v = hover
      and s' = "run sample_uuid [Connection 1, Execute hover False, Tick 30000] constructor" and e = "Timeout 0",
      OF inj_sample_uuid refl _ refl]
    command_is_not_validated [where es = "[Connection 1]" and command = hover and t = True,
      OF inj_sample_uuid refl _ refl]
  by (simp add: run_defs deliveries_def own_prop_def)

end
